theory Spec2Isabelle
  imports Complex_Main "HOL-Library.Word" "HOL-Library.Multiset"
begin

section \<open>Values, machine integers and failures\<close>

text \<open>
  The program works on \<^verbatim>\<open>float\<close>, \<^verbatim>\<open>uint32_t\<close> and \<^verbatim>\<open>int32_t\<close> values and on
  \<^verbatim>\<open>std::vector\<close>s of them.  The 32-bit integers are words, so that unsigned arithmetic wraps
  around as in the source.  Vector sizes and the loop counters that range over them
  (\<^verbatim>\<open>size_t\<close>, \<^verbatim>\<open>int counter\<close>, \<^verbatim>\<open>unsigned i\<close>) are natural numbers: vectors of \<open>2^31\<close> or
  more rows are outside the model.

  Every way in which the source can leave its defined behaviour is a value of
  \<open>error\<close>: a failed \<^verbatim>\<open>assert\<close>, an access to a vector outside its bounds, a
  conversion of a \<^verbatim>\<open>float\<close> to an integer type that cannot hold its truncated value,
  and a call of \<^verbatim>\<open>std::ranges::sort\<close> with a comparison that is no strict weak ordering
  of the elements.
\<close>

type_synonym uint32 = "32 word"
type_synonym int32 = "32 word"
type_synonym byte = "8 word"

datatype error = AssertionFailed | OutOfBounds | UndefinedCast | UndefinedSort

definition bindE :: "error + 'a \<Rightarrow> ('a \<Rightarrow> error + 'b) \<Rightarrow> error + 'b" where
  "bindE m f = (case m of Inl e \<Rightarrow> Inl e | Inr x \<Rightarrow> f x)"

text \<open>\<^verbatim>\<open>v[i]\<close> on a \<^verbatim>\<open>std::vector\<close>: defined only for \<open>i < v.size()\<close>.\<close>

definition vec_at :: "'a list \<Rightarrow> nat \<Rightarrow> error + 'a" where
  "vec_at xs i = (if i < length xs then Inr (xs ! i) else Inl OutOfBounds)"

section \<open>Single-precision floating point\<close>

text \<open>
  A \<^verbatim>\<open>float\<close> is an IEEE 754 binary32 value: a finite number, an infinity or NaN.  A
  finite value is given by the real number it denotes; the two zeros are one value, since
  the program only adds, subtracts, multiplies, compares and converts, and none of these
  tells them apart.  Every arithmetic operation returns the exact result rounded to the
  nearest binary32 number, ties to the even significand, which is what the source does
  when \<^verbatim>\<open>float\<close> expressions are evaluated in \<^verbatim>\<open>float\<close> and a product and a sum are not
  fused.

  The type has a value \<open>Finite x\<close> for every real \<open>x\<close>, also where \<open>x\<close> is no binary32
  number.  The values read from a file are binary32 numbers and every operation returns
  one (\<open>round32\<close>), so that the values of a run are among those of the type; what is proved
  for all values of the type holds for them.
\<close>

datatype float32 = Finite real | PInf | NInf | NaN

definition pow2 :: "int \<Rightarrow> real" where
  "pow2 e = (if 0 \<le> e then 2 ^ nat e else 1 / 2 ^ nat (- e))"

text \<open>
  The binary32 numbers around a positive \<open>x\<close> are the multiples of \<open>pow2 e\<close> for the
  \<open>e\<close> with \<open>2^23 \<le> x / pow2 e < 2^24\<close>, and of \<open>pow2 (- 149)\<close> below \<open>pow2 (- 126)\<close>.
\<close>

function scale_down :: "real \<Rightarrow> int \<Rightarrow> int" where
  "scale_down x e = (if 2 ^ 24 \<le> x then scale_down (x / 2) (e + 1) else e)"
  by pat_completeness auto
termination
proof (relation "measure (\<lambda>(x, e). nat \<lceil>x\<rceil>)")
  show "wf (measure (\<lambda>(x, e). nat \<lceil>x\<rceil>))"
    by simp
next
  fix x :: real and e :: int
  assume big: "2 ^ 24 \<le> x"
  then have "x / 2 + 1 \<le> x"
    by simp
  then have "\<lceil>x / 2\<rceil> < \<lceil>x\<rceil>"
    by linarith
  moreover from big have "0 < x"
    by (rule less_le_trans [rotated]) simp
  then have "0 < \<lceil>x\<rceil>"
    by simp
  ultimately show "((x / 2, e + 1), (x, e)) \<in> measure (\<lambda>(x, e). nat \<lceil>x\<rceil>)"
    by simp
qed

function scale_up :: "real \<Rightarrow> int \<Rightarrow> int" where
  "scale_up x e = (if x < 2 ^ 23 \<and> - 149 < e then scale_up (2 * x) (e - 1) else e)"
  by pat_completeness auto
termination
  by (relation "measure (\<lambda>(x, e). nat (e + 149))") auto

declare scale_down.simps [simp del]
declare scale_up.simps [simp del]

definition quantum_exponent :: "real \<Rightarrow> int" where
  "quantum_exponent x = (if 2 ^ 24 \<le> x then scale_down x 0 else scale_up x 0)"

definition round_half_even :: "real \<Rightarrow> int" where
  "round_half_even r =
     (let f = \<lfloor>r\<rfloor>
      in if r - of_int f < 1 / 2 then f
         else if 1 / 2 < r - of_int f then f + 1
         else if even f then f else f + 1)"

definition round32 :: "real \<Rightarrow> float32" where
  "round32 x =
     (if x = 0 then Finite 0
      else
        let e = quantum_exponent \<bar>x\<bar>;
            y = of_int (round_half_even (x / pow2 e)) * pow2 e
        in if 2 ^ 128 \<le> \<bar>y\<bar> then (if 0 < x then PInf else NInf) else Finite y)"

fun fneg :: "float32 \<Rightarrow> float32" where
  "fneg (Finite a) = Finite (- a)"
| "fneg PInf = NInf"
| "fneg NInf = PInf"
| "fneg NaN = NaN"

fun fadd :: "float32 \<Rightarrow> float32 \<Rightarrow> float32" where
  "fadd (Finite a) (Finite b) = round32 (a + b)"
| "fadd (Finite a) PInf = PInf"
| "fadd (Finite a) NInf = NInf"
| "fadd PInf (Finite b) = PInf"
| "fadd PInf PInf = PInf"
| "fadd PInf NInf = NaN"
| "fadd NInf (Finite b) = NInf"
| "fadd NInf PInf = NaN"
| "fadd NInf NInf = NInf"
| "fadd NaN y = NaN"
| "fadd (Finite a) NaN = NaN"
| "fadd PInf NaN = NaN"
| "fadd NInf NaN = NaN"

definition fsub :: "float32 \<Rightarrow> float32 \<Rightarrow> float32" where
  "fsub x y = fadd x (fneg y)"

text \<open>The sign of a product with an infinity; a zero times an infinity is NaN.\<close>

definition signed_inf :: "real \<Rightarrow> float32" where
  "signed_inf s = (if s = 0 then NaN else if 0 < s then PInf else NInf)"

fun fmul :: "float32 \<Rightarrow> float32 \<Rightarrow> float32" where
  "fmul (Finite a) (Finite b) = round32 (a * b)"
| "fmul (Finite a) PInf = signed_inf a"
| "fmul (Finite a) NInf = signed_inf (- a)"
| "fmul PInf (Finite b) = signed_inf b"
| "fmul PInf PInf = PInf"
| "fmul PInf NInf = NInf"
| "fmul NInf (Finite b) = signed_inf (- b)"
| "fmul NInf PInf = NInf"
| "fmul NInf NInf = PInf"
| "fmul NaN y = NaN"
| "fmul (Finite a) NaN = NaN"
| "fmul PInf NaN = NaN"
| "fmul NInf NaN = NaN"

text \<open>The comparisons \<^verbatim>\<open><\<close>, \<^verbatim>\<open><=\<close> and \<^verbatim>\<open>==\<close>: all false when an operand is NaN.\<close>

fun fless :: "float32 \<Rightarrow> float32 \<Rightarrow> bool" where
  "fless (Finite a) (Finite b) \<longleftrightarrow> a < b"
| "fless (Finite a) PInf \<longleftrightarrow> True"
| "fless (Finite a) NInf \<longleftrightarrow> False"
| "fless PInf y \<longleftrightarrow> False"
| "fless NInf (Finite b) \<longleftrightarrow> True"
| "fless NInf PInf \<longleftrightarrow> True"
| "fless NInf NInf \<longleftrightarrow> False"
| "fless NaN y \<longleftrightarrow> False"
| "fless (Finite a) NaN \<longleftrightarrow> False"
| "fless NInf NaN \<longleftrightarrow> False"

definition feq :: "float32 \<Rightarrow> float32 \<Rightarrow> bool" where
  "feq x y \<longleftrightarrow> x \<noteq> NaN \<and> x = y"

definition fle :: "float32 \<Rightarrow> float32 \<Rightarrow> bool" where
  "fle x y \<longleftrightarrow> fless x y \<or> feq x y"

text \<open>Finite values, and the values that a sum of squares can take.\<close>

fun is_finite :: "float32 \<Rightarrow> bool" where
  "is_finite (Finite a) \<longleftrightarrow> True"
| "is_finite PInf \<longleftrightarrow> False"
| "is_finite NInf \<longleftrightarrow> False"
| "is_finite NaN \<longleftrightarrow> False"

fun fnonneg :: "float32 \<Rightarrow> bool" where
  "fnonneg (Finite a) \<longleftrightarrow> 0 \<le> a"
| "fnonneg PInf \<longleftrightarrow> True"
| "fnonneg NInf \<longleftrightarrow> False"
| "fnonneg NaN \<longleftrightarrow> False"

declare fnonneg.simps [simp del]

text \<open>
  \<^verbatim>\<open>static_cast\<close> from \<^verbatim>\<open>float\<close> to an integer type discards the fractional part
  (truncation toward zero); the behaviour is undefined when the truncated value is not
  representable in the target type, and for an infinity and NaN.
\<close>

definition truncate_toward_zero :: "real \<Rightarrow> int" where
  "truncate_toward_zero x = (if 0 \<le> x then \<lfloor>x\<rfloor> else \<lceil>x\<rceil>)"

fun float_to_uint32 :: "float32 \<Rightarrow> error + uint32" where
  "float_to_uint32 (Finite x) =
     (let t = truncate_toward_zero x
      in if 0 \<le> t \<and> t < 2 ^ 32 then Inr (word_of_int t) else Inl UndefinedCast)"
| "float_to_uint32 PInf = Inl UndefinedCast"
| "float_to_uint32 NInf = Inl UndefinedCast"
| "float_to_uint32 NaN = Inl UndefinedCast"

fun float_to_int32 :: "float32 \<Rightarrow> error + int32" where
  "float_to_int32 (Finite x) =
     (let t = truncate_toward_zero x
      in if - (2 ^ 31) \<le> t \<and> t < 2 ^ 31 then Inr (word_of_int t) else Inl UndefinedCast)"
| "float_to_int32 PInf = Inl UndefinedCast"
| "float_to_int32 NInf = Inl UndefinedCast"
| "float_to_int32 NaN = Inl UndefinedCast"

text \<open>\<^verbatim>\<open>static_cast<float>(value)\<close> for an \<^verbatim>\<open>int32_t\<close>: the nearest binary32 number.\<close>

definition int32_to_float :: "int32 \<Rightarrow> float32" where
  "int32_to_float v = round32 (real_of_int (sint v))"

section \<open>Distance: \<^verbatim>\<open>compare_with_id\<close>\<close>

text \<open>The loop of \<^verbatim>\<open>compare_with_id\<close>; \<open>acc\<close> is the variable \<^verbatim>\<open>sum\<close> of the source.\<close>

function compare_loop :: "float32 list \<Rightarrow> float32 list \<Rightarrow> nat \<Rightarrow> float32 \<Rightarrow> error + float32" where
  "compare_loop lhs rhs i acc =
     (if i < length lhs then
        (if i < length rhs then
           (let diff = fsub (lhs ! i) (rhs ! i)
            in compare_loop lhs rhs (i + 1) (fadd acc (fmul diff diff)))
         else Inl OutOfBounds)
      else Inr acc)"
  by pat_completeness auto
termination
  by (relation "measure (\<lambda>(lhs, rhs, i, acc). length lhs - i)") auto

declare compare_loop.simps [simp del]

definition compare_with_id :: "float32 list \<Rightarrow> float32 list \<Rightarrow> error + float32" where
  "compare_with_id lhs rhs = compare_loop lhs rhs 2 (Finite 0)"

section \<open>Binary input and output: \<^verbatim>\<open>ReadBin\<close> and \<^verbatim>\<open>SaveKNN\<close>\<close>

text \<open>
  A file is the list of its bytes; \<open>None\<close> is a file that cannot be opened.  Integers
  are stored in the byte order of the host, taken to be little-endian.  How four bytes
  denote a \<^verbatim>\<open>float\<close> is a parameter \<open>dec\<close> of the reader.

  \<^verbatim>\<open>ifs.read\<close> of \<open>n\<close> bytes stores the bytes that are there and fails when fewer than \<open>n\<close>
  are left; once it has failed every later read fails too.
\<close>

definition le_uint32 :: "byte list \<Rightarrow> uint32" where
  "le_uint32 bs = foldr (\<lambda>b acc. ucast b + push_bit 8 acc) bs 0"

definition uint32_bytes :: "uint32 \<Rightarrow> byte list" where
  "uint32_bytes w = [ucast w, ucast (drop_bit 8 w), ucast (drop_bit 16 w), ucast (drop_bit 24 w)]"

text \<open>\<^verbatim>\<open>data.resize(N)\<close>: keeps the first \<open>N\<close> rows and fills up with empty rows.\<close>

definition resize :: "nat \<Rightarrow> 'a list list \<Rightarrow> 'a list list" where
  "resize n data = take n data @ replicate (n - length data) []"

definition decode_row :: "(byte list \<Rightarrow> 'f) \<Rightarrow> nat \<Rightarrow> byte list \<Rightarrow> 'f list" where
  "decode_row dec num_dimensions buff =
     map (\<lambda>dim. dec (take 4 (drop (4 * dim) buff))) [0..<num_dimensions]"

function read_rows ::
  "(byte list \<Rightarrow> 'f) \<Rightarrow> nat \<Rightarrow> byte list \<Rightarrow> nat \<Rightarrow> 'f list list \<Rightarrow> error + 'f list list" where
  "read_rows dec num_dimensions rest counter data =
     (if 4 * num_dimensions \<le> length rest then
        (if counter < length data then
           read_rows dec num_dimensions (drop (4 * num_dimensions) rest) (counter + 1)
             (data[counter := decode_row dec num_dimensions rest])
         else Inl OutOfBounds)
      else Inr data)"
  by pat_completeness auto
termination
  by (relation "measure (\<lambda>(dec, num_dimensions, rest, counter, data). length data - counter)")
    auto

declare read_rows.simps [simp del]

definition ReadBin ::
  "(byte list \<Rightarrow> 'f) \<Rightarrow> byte list option \<Rightarrow> nat \<Rightarrow> 'f list list \<Rightarrow> error + 'f list list" where
  "ReadBin dec file num_dimensions data =
     (case file of
        None \<Rightarrow> Inl AssertionFailed
      | Some bytes \<Rightarrow>
          (let N = le_uint32 (take 4 bytes);
               data' = resize (unat N) data
           in if length bytes < 4 then Inr data'
              else read_rows dec num_dimensions (drop 4 bytes) 0 data'))"

definition K :: nat where
  "K = 100"

text \<open>
  \<^verbatim>\<open>ofs.write(knn.data(), K * sizeof(uint32_t))\<close> reads \<open>K\<close> entries of the row; a row
  with fewer entries is read past its end.
\<close>

fun write_rows :: "uint32 list list \<Rightarrow> byte list \<Rightarrow> error + byte list" where
  "write_rows [] out = Inr out"
| "write_rows (knn # rest) out =
     (if length knn < K then Inl OutOfBounds
      else write_rows rest (out @ concat (map uint32_bytes (take K knn))))"

text \<open>\<^verbatim>\<open>knns.front()\<close> is undefined on an empty vector.\<close>

definition SaveKNN :: "uint32 list list \<Rightarrow> error + byte list" where
  "SaveKNN knns =
     (if knns = [] then Inl OutOfBounds
      else if length (hd knns) \<noteq> K then Inl AssertionFailed
      else write_rows knns [])"

section \<open>The query evaluator: \<^verbatim>\<open>main\<close>\<close>

text \<open>
  \<^verbatim>\<open>main\<close> of \<^verbatim>\<open>src/baseline.cpp\<close>, cut into the steps it runs for every query.  The
  \<^verbatim>\<open>main\<close> of \<^verbatim>\<open>glasshouse/src/baseline.cpp\<close> reads the two files through a helper and
  is the same from there on.
\<close>

definition kNumDataDimensions :: nat where
  "kNumDataDimensions = 102"

text \<open>\<^verbatim>\<open>0.001F\<close> is the \<^verbatim>\<open>float\<close> nearest to \<open>1/1000\<close>, which is \<open>8589935 / 2^33\<close>.\<close>

definition kSampleProportion :: float32 where
  "kSampleProportion = Finite (8589935 / 2 ^ 33)"

definition K_NEAREST :: nat where
  "K_NEAREST = 100"

text \<open>\<^verbatim>\<open>nodes[j][k]\<close>\<close>

definition node_at :: "float32 list list \<Rightarrow> uint32 \<Rightarrow> nat \<Rightarrow> error + float32" where
  "node_at nodes j k = bindE (vec_at nodes (unat j)) (\<lambda>row. vec_at row k)"

text \<open>
  The four candidate loops of the source have the same shape,
  \<^verbatim>\<open>for (uint32_t j = 0; j < sample_prop; j++) if (...) knn.push_back(j);\<close>
  and differ in the test only, which is the parameter \<open>qualifies\<close>.
\<close>

function scan ::
  "(uint32 \<Rightarrow> error + bool) \<Rightarrow> uint32 \<Rightarrow> uint32 \<Rightarrow> uint32 list \<Rightarrow> error + uint32 list" where
  "scan qualifies sample_prop j knn =
     (if j < sample_prop then
        (case qualifies j of
           Inl e \<Rightarrow> Inl e
         | Inr b \<Rightarrow> scan qualifies sample_prop (j + 1) (if b then knn @ [j] else knn))
      else Inr knn)"
  by pat_completeness auto
termination
proof (relation "measure (\<lambda>(qualifies, sample_prop, j, knn). unat sample_prop - unat j)")
  show "wf (measure (\<lambda>(qualifies, sample_prop, j, knn). unat sample_prop - unat j))"
    by simp
next
  fix qualifies :: "uint32 \<Rightarrow> error + bool" and sample_prop j :: uint32
    and knn :: "uint32 list" and b :: bool
  assume "j < sample_prop"
  then have lt: "unat j < unat sample_prop"
    by (simp add: word_less_nat_alt)
  moreover have "unat sample_prop < 2 ^ LENGTH(32)"
    by (rule unsigned_less)
  ultimately have "Suc (unat j) < 2 ^ LENGTH(32)"
    by linarith
  then have "unat j + unat (1 :: uint32) < 2 ^ LENGTH(32)"
    by simp
  then have "unat (j + 1) = unat j + unat (1 :: uint32)"
    by (simp only: unat_add_lem)
  with lt show "((qualifies, sample_prop, j + 1, if b then knn @ [j] else knn),
      (qualifies, sample_prop, j, knn))
    \<in> measure (\<lambda>(qualifies, sample_prop, j, knn). unat sample_prop - unat j)"
    by simp
qed

declare scan.simps [simp del]

definition equal_test :: "float32 list list \<Rightarrow> int32 \<Rightarrow> uint32 \<Rightarrow> error + bool" where
  "equal_test nodes v j = bindE (node_at nodes j 0) (\<lambda>x. Inr (feq x (int32_to_float v)))"

definition range_test :: "float32 list list \<Rightarrow> float32 \<Rightarrow> float32 \<Rightarrow> uint32 \<Rightarrow> error + bool" where
  "range_test nodes l_bound r_bound j =
     bindE (node_at nodes j 1) (\<lambda>y. Inr (fle l_bound y \<and> fle y r_bound))"

definition equal_range_test ::
  "float32 list list \<Rightarrow> int32 \<Rightarrow> float32 \<Rightarrow> float32 \<Rightarrow> uint32 \<Rightarrow> error + bool" where
  "equal_range_test nodes v l_bound r_bound j =
     bindE (node_at nodes j 0) (\<lambda>x.
       if feq x (int32_to_float v) then range_test nodes l_bound r_bound j else Inr False)"

definition candidates ::
  "float32 list list \<Rightarrow> uint32 \<Rightarrow> uint32 \<Rightarrow> int32 \<Rightarrow> float32 \<Rightarrow> float32 \<Rightarrow> error + uint32 list" where
  "candidates nodes sample_prop query_type v l_bound r_bound =
     (if query_type = 0 then scan (\<lambda>j. Inr True) sample_prop 0 []
      else if query_type = 1 then scan (equal_test nodes v) sample_prop 0 []
      else if query_type = 2 then scan (range_test nodes l_bound r_bound) sample_prop 0 []
      else if query_type = 3 then scan (equal_range_test nodes v l_bound r_bound) sample_prop 0 []
      else Inr [])"

function pad_loop :: "uint32 \<Rightarrow> uint32 \<Rightarrow> uint32 list \<Rightarrow> uint32 list" where
  "pad_loop n_points sampled knn =
     (if length knn < K_NEAREST then
        pad_loop n_points (sampled + 1) (knn @ [n_points - sampled])
      else knn)"
  by pat_completeness auto
termination
  by (relation "measure (\<lambda>(n_points, sampled, knn). K_NEAREST - length knn)") auto

declare pad_loop.simps [simp del]

definition pad :: "uint32 \<Rightarrow> uint32 list \<Rightarrow> uint32 list" where
  "pad n_points knn = (if length knn < K_NEAREST then pad_loop n_points 1 knn else knn)"

definition make_query_vec :: "float32 list \<Rightarrow> float32 list" where
  "make_query_vec query = [Finite 0, Finite 0] @ drop 4 query"

fun compute_dists ::
  "float32 list list \<Rightarrow> float32 list \<Rightarrow> uint32 list \<Rightarrow> error + float32 list" where
  "compute_dists nodes query_vec [] = Inr []"
| "compute_dists nodes query_vec (k # knn) =
     bindE (vec_at nodes (unat k)) (\<lambda>node.
     bindE (compare_with_id node query_vec) (\<lambda>d.
     bindE (compute_dists nodes query_vec knn) (\<lambda>dists. Inr (d # dists))))"

fun gather :: "uint32 list \<Rightarrow> uint32 list \<Rightarrow> nat list \<Rightarrow> error + uint32 list" where
  "gather knn ids [] = Inr []"
| "gather knn ids (j # js) =
     bindE (vec_at ids j) (\<lambda>i.
     bindE (vec_at knn (unat i)) (\<lambda>x.
     bindE (gather knn ids js) (\<lambda>knn_sorted. Inr (x # knn_sorted))))"

text \<open>
  \<^verbatim>\<open>std::ranges::sort\<close> is library code: it is the parameter \<open>srt\<close>, which takes the
  comparison and the vector to sort.  The standard asks for a comparison that is a
  strict weak ordering of the elements (irreflexive, transitive, and with a transitive
  equivalence \<open>\<not> cmp a b \<and> \<not> cmp b a\<close>) and then promises a rearrangement in which no
  element is followed by one that compares less; the order of equivalent elements is
  left open.  \<open>sort_contract\<close> says as much.  \<open>insertion_sort\<close> is one sort that meets it.
\<close>

type_synonym sorter = "(uint32 \<Rightarrow> uint32 \<Rightarrow> bool) \<Rightarrow> uint32 list \<Rightarrow> uint32 list"



fun insert_by :: "('a \<Rightarrow> 'a \<Rightarrow> bool) \<Rightarrow> 'a \<Rightarrow> 'a list \<Rightarrow> 'a list" where
  "insert_by cmp x [] = [x]"
| "insert_by cmp x (y # ys) = (if cmp y x then y # insert_by cmp x ys else x # y # ys)"

definition insertion_sort :: sorter where
  "insertion_sort cmp ids = foldr (insert_by cmp) ids []"

text \<open>
  The comparison \<^verbatim>\<open>dists[lhs] < dists[rhs]\<close> is a strict weak ordering of the positions
  exactly when no distance is NaN or no distance is less than another
  (\<open>sortable_iff\<close> below).
\<close>

definition sortable :: "float32 list \<Rightarrow> bool" where
  "sortable dists \<longleftrightarrow>
     list_all (\<lambda>d. d \<noteq> NaN) dists \<or> list_all (\<lambda>d. list_all (\<lambda>d'. \<not> fless d d') dists) dists"

text \<open>Lines 69 to 108: the fields of the query are read, then the prefix is scanned.\<close>

definition query_candidates ::
  "float32 list list \<Rightarrow> uint32 \<Rightarrow> float32 list \<Rightarrow> error + uint32 list" where
  "query_candidates nodes sample_prop query =
     bindE (vec_at query 0) (\<lambda>q0.
     bindE (float_to_uint32 q0) (\<lambda>query_type.
     bindE (vec_at query 1) (\<lambda>q1.
     bindE (float_to_int32 q1) (\<lambda>v.
     bindE (vec_at query 2) (\<lambda>l_bound.
     bindE (vec_at query 3) (\<lambda>r_bound.
       candidates nodes sample_prop query_type v l_bound r_bound))))))"

text \<open>
  Lines 120 to 138: the distances of the candidates, the positions \<open>0, 1, \<dots>\<close> sorted by
  distance, and the candidates at the first \<open>K_NEAREST\<close> sorted positions.
\<close>

definition rank_candidates ::
  "sorter \<Rightarrow> float32 list list \<Rightarrow> float32 list \<Rightarrow> uint32 list \<Rightarrow> error + uint32 list" where
  "rank_candidates srt nodes query_vec knn =
     bindE (compute_dists nodes query_vec knn) (\<lambda>dists.
       if sortable dists then
         let ids = map word_of_nat [0..<length knn];
             ids' = srt (\<lambda>lhs rhs. fless (dists ! unat lhs) (dists ! unat rhs)) ids
         in gather knn ids' [0..<K_NEAREST]
       else Inl UndefinedSort)"

definition process_query ::
  "sorter \<Rightarrow> float32 list list \<Rightarrow> uint32 \<Rightarrow> uint32 \<Rightarrow> float32 list \<Rightarrow> error + uint32 list" where
  "process_query srt nodes n_points sample_prop query =
     bindE (query_candidates nodes sample_prop query) (\<lambda>cand.
       rank_candidates srt nodes (make_query_vec query) (pad n_points cand))"

fun query_loop ::
  "sorter \<Rightarrow> float32 list list \<Rightarrow> uint32 \<Rightarrow> uint32 \<Rightarrow> float32 list list \<Rightarrow> uint32 list list
     \<Rightarrow> error + uint32 list list" where
  "query_loop srt nodes n_points sample_prop [] knn_results = Inr knn_results"
| "query_loop srt nodes n_points sample_prop (query # queries) knn_results =
     bindE (process_query srt nodes n_points sample_prop query) (\<lambda>knn_sorted.
       query_loop srt nodes n_points sample_prop queries (knn_results @ [knn_sorted]))"

text \<open>
  The sample size as \<^verbatim>\<open>main\<close> computes it:
  \<^verbatim>\<open>n_points * static_cast<uint32_t>(sample_proportion)\<close>.
\<close>

definition sample_size :: "uint32 \<Rightarrow> float32 \<Rightarrow> error + uint32" where
  "sample_size n_points sample_proportion =
     bindE (float_to_uint32 sample_proportion) (\<lambda>p. Inr (n_points * p))"

text \<open>
  Lines 56 to 140, from the two vectors read to the rows handed to \<^verbatim>\<open>SaveKNN\<close>;
  \<^verbatim>\<open>nodes[0].size()\<close> is evaluated before the first query.
\<close>

definition evaluate ::
  "sorter \<Rightarrow> float32 list list \<Rightarrow> float32 list list \<Rightarrow> error + uint32 list list" where
  "evaluate srt nodes queries =
     (let n_points = (word_of_nat (length nodes) :: uint32)
      in bindE (vec_at nodes 0) (\<lambda>node0.
         bindE (sample_size n_points kSampleProportion) (\<lambda>sample_prop.
           query_loop srt nodes n_points sample_prop queries [])))"

definition main ::
  "sorter \<Rightarrow> (byte list \<Rightarrow> float32) \<Rightarrow> byte list option \<Rightarrow> byte list option \<Rightarrow> error + byte list" where
  "main srt dec source_file query_file =
     bindE (ReadBin dec source_file kNumDataDimensions []) (\<lambda>nodes.
     bindE (ReadBin dec query_file (kNumDataDimensions + 2) []) (\<lambda>queries.
     bindE (evaluate srt nodes queries) SaveKNN))"

section \<open>The sample size as the specification words it\<close>

text \<open>
  This definition follows the specification, not the source: the prefix has
  \<open>floor(N \<times> sampleProportion)\<close> entries, with \<open>sampleProportion = 0.001\<close>.
\<close>

definition spec_sample_size :: "nat \<Rightarrow> nat" where
  "spec_sample_size N = nat \<lfloor>real N * 0.001\<rfloor>"

section \<open>A dataset of 100 points and a query\<close>

text \<open>
  Point \<open>i\<close> has the single feature \<open>100 - i\<close>, except that point 98 has the feature 0 and
  point 99 the feature 1.  The query has kind 1, equality value 5, range \<open>[0, 0]\<close> and the
  feature 0, so that the distance of a point is the square of its feature.
\<close>

definition nodes_ex :: "float32 list list" where
  "nodes_ex =
     map (\<lambda>i. [Finite 0, Finite 0, Finite (real (100 - i))]) [0..<98]
     @ [[Finite 0, Finite 0, Finite 0], [Finite 0, Finite 0, Finite 1]]"

definition query_ex :: "float32 list" where
  "query_ex = map Finite [1, 5, 0, 0, 0]"

text \<open>
  The IDs with which a query without candidates is padded on these 100 points, the
  distances of their points to the query, and the IDs in ascending order of distance.
\<close>

definition padding_ex :: "uint32 list" where
  "padding_ex =
    [99, 98, 97, 96, 95, 94, 93, 92, 91, 90, 89, 88, 87, 86, 85, 84, 83, 82, 81, 80, 79,
     78, 77, 76, 75, 74, 73, 72, 71, 70, 69, 68, 67, 66, 65, 64, 63, 62, 61, 60, 59, 58,
     57, 56, 55, 54, 53, 52, 51, 50, 49, 48, 47, 46, 45, 44, 43, 42, 41, 40, 39, 38, 37,
     36, 35, 34, 33, 32, 31, 30, 29, 28, 27, 26, 25, 24, 23, 22, 21, 20, 19, 18, 17, 16,
     15, 14, 13, 12, 11, 10, 9, 8, 7, 6, 5, 4, 3, 2, 1, 0]"

definition dists_ex :: "float32 list" where
  "dists_ex = map Finite
    [1, 0, 9, 16, 25, 36, 49, 64, 81, 100, 121, 144, 169, 196, 225, 256, 289, 324, 361,
     400, 441, 484, 529, 576, 625, 676, 729, 784, 841, 900, 961, 1024, 1089, 1156, 1225,
     1296, 1369, 1444, 1521, 1600, 1681, 1764, 1849, 1936, 2025, 2116, 2209, 2304, 2401,
     2500, 2601, 2704, 2809, 2916, 3025, 3136, 3249, 3364, 3481, 3600, 3721, 3844, 3969,
     4096, 4225, 4356, 4489, 4624, 4761, 4900, 5041, 5184, 5329, 5476, 5625, 5776, 5929,
     6084, 6241, 6400, 6561, 6724, 6889, 7056, 7225, 7396, 7569, 7744, 7921, 8100, 8281,
     8464, 8649, 8836, 9025, 9216, 9409, 9604, 9801, 10000]"

definition row_ex :: "uint32 list" where
  "row_ex =
    [98, 99, 97, 96, 95, 94, 93, 92, 91, 90, 89, 88, 87, 86, 85, 84, 83, 82, 81, 80, 79,
     78, 77, 76, 75, 74, 73, 72, 71, 70, 69, 68, 67, 66, 65, 64, 63, 62, 61, 60, 59, 58,
     57, 56, 55, 54, 53, 52, 51, 50, 49, 48, 47, 46, 45, 44, 43, 42, 41, 40, 39, 38, 37,
     36, 35, 34, 33, 32, 31, 30, 29, 28, 27, 26, 25, 24, 23, 22, 21, 20, 19, 18, 17, 16,
     15, 14, 13, 12, 11, 10, 9, 8, 7, 6, 5, 4, 3, 2, 1, 0]"

section \<open>Auxiliary facts\<close>

subsection \<open>Failures and vectors\<close>

lemma bindE_Inl [simp]: "bindE (Inl e) f = Inl e"
  by (simp add: bindE_def)

lemma bindE_Inr [simp]: "bindE (Inr x) f = f x"
  by (simp add: bindE_def)

lemma bindE_eq_Inr_iff: "bindE m f = Inr y \<longleftrightarrow> (\<exists>x. m = Inr x \<and> f x = Inr y)"
  by (cases m) simp_all

lemma vec_at_eq_Inr_iff: "vec_at xs i = Inr x \<longleftrightarrow> i < length xs \<and> xs ! i = x"
  by (auto simp: vec_at_def)

lemma vec_at_in_bounds: "i < length xs \<Longrightarrow> vec_at xs i = Inr (xs ! i)"
  by (simp add: vec_at_def)

lemma vec_at_out_of_bounds: "\<not> i < length xs \<Longrightarrow> vec_at xs i = Inl OutOfBounds"
  by (simp add: vec_at_def)


subsection \<open>The sample size and the candidate scan\<close>

lemma sample_size_kSampleProportion: "sample_size n_points kSampleProportion = Inr 0"
  by (simp add: sample_size_def kSampleProportion_def truncate_toward_zero_def)

lemma sample_size_main:
  assumes "sample_size n_points kSampleProportion = Inr sample_prop"
  shows "sample_prop = 0"
  using assms by (simp add: sample_size_kSampleProportion)


lemma scan_zero [simp]: "scan qualifies 0 j knn = Inr knn"
  by (simp add: scan.simps)




lemma query_candidates_no_sample:
  assumes "query_candidates nodes 0 query = Inr cand"
  shows "cand = []"
  using assms
  by (auto simp: query_candidates_def candidates_def bindE_eq_Inr_iff split: if_splits)




subsection \<open>Padding\<close>

lemma pad_loop_eq:
  "pad_loop n_points sampled knn =
     knn @ map (\<lambda>k. n_points - (sampled + word_of_nat k)) [0..<K_NEAREST - length knn]"
proof (induction n_points sampled knn rule: pad_loop.induct)
  case (1 n_points sampled knn)
  show ?case
  proof (cases "length knn < K_NEAREST")
    case False
    then show ?thesis
      by (simp add: pad_loop.simps)
  next
    case True
    then have "K_NEAREST - length knn = Suc (K_NEAREST - Suc (length knn))"
      by simp
    then have upt: "[0..<K_NEAREST - length knn] = 0 # map Suc [0..<K_NEAREST - Suc (length knn)]"
      by (simp only: upt_conv_Cons map_Suc_upt)
    show ?thesis
      using True "1.IH" [OF True]
      by (simp add: pad_loop.simps [of n_points sampled knn] upt comp_def add.assoc add.commute)
  qed
qed

lemma unat_sub_of_nat:
  fixes n :: uint32
  assumes "s \<le> unat n"
  shows "unat (n - word_of_nat s) = unat n - s"
proof -
  from assms have us: "unat (word_of_nat s :: uint32) = s"
    by (rule le_unat_uoi)
  with assms have "(word_of_nat s :: uint32) \<le> n"
    by (simp only: word_le_nat_alt)
  then have "unat (n - word_of_nat s) = unat n - unat (word_of_nat s :: uint32)"
    by (rule unat_sub)
  with us show ?thesis
    by (simp only:)
qed

lemma pad_eq:
  assumes "length cand < K_NEAREST"
  shows "pad n_points cand =
    cand @ map (\<lambda>s. n_points - word_of_nat s) [1..<K_NEAREST + 1 - length cand]"
proof -
  from assms have "K_NEAREST + 1 - length cand = Suc (K_NEAREST - length cand)"
    by simp
  then have "[1..<K_NEAREST + 1 - length cand] = map Suc [0..<K_NEAREST - length cand]"
    by (simp only: map_Suc_upt One_nat_def)
  then show ?thesis
    using assms by (simp add: pad_def pad_loop_eq comp_def)
qed

lemma length_pad: "length (pad n_points cand) = max K_NEAREST (length cand)"
  by (simp add: pad_def pad_loop_eq)


lemma unat_wrapped_id: "unat (- 1 :: uint32) = 2 ^ 32 - 1"
  by (simp add: unsigned_minus_1_eq_mask mask_eq_exp_minus_1)

subsection \<open>Rounding and the operations on \<^verbatim>\<open>float\<close>\<close>

lemma round_half_even_of_int [simp]: "round_half_even (of_int z) = z"
  by (simp add: round_half_even_def)

lemma pow2_pos [simp]: "0 < pow2 e"
  by (simp add: pow2_def)

lemma pow2_nonneg [simp]: "0 \<le> pow2 e"
  by (rule less_imp_le) (rule pow2_pos)

lemma round32_zero [simp]: "round32 0 = Finite 0"
  by (simp add: round32_def)

lemma scale_up_le: "scale_up x e \<le> e"
proof (induction x e rule: scale_up.induct)
  case (1 x e)
  show ?case
  proof (cases "x < 2 ^ 23 \<and> - 149 < e")
    case True
    from "1.IH" [OF True] have "scale_up (2 * x) (e - 1) \<le> e - 1" .
    with True show ?thesis
      by (simp add: scale_up.simps [of x e])
  next
    case False
    have "scale_up x e = e"
      by (subst scale_up.simps) (rule if_not_P [OF False])
    then show ?thesis
      by simp
  qed
qed

lemma round32_of_int:
  assumes "\<bar>m\<bar> < 2 ^ 24"
  shows "round32 (of_int m) = Finite (of_int m)"
proof (cases "m = 0")
  case True
  then show ?thesis
    by (simp add: round32_def)
next
  case False
  define e where "e = quantum_exponent \<bar>real_of_int m\<bar>"
  define k where "k = nat (- e)"
  from assms have small: "\<bar>real_of_int m\<bar> < 2 ^ 24"
    by (metis of_int_abs of_int_less_numeral_power_cancel_iff)
  then have "e = scale_up \<bar>real_of_int m\<bar> 0"
    by (simp add: e_def quantum_exponent_def)
  then have "e \<le> 0"
    by (simp add: scale_up_le)
  then have p: "pow2 e = 1 / 2 ^ k"
    by (cases "e = 0") (simp_all add: pow2_def k_def)
  have "real_of_int m / pow2 e = of_int (m * 2 ^ k)"
    by (simp add: p)
  then have "round_half_even (real_of_int m / pow2 e) = m * 2 ^ k"
    by (simp only: round_half_even_of_int)
  then have "of_int (round_half_even (real_of_int m / pow2 e)) * pow2 e = real_of_int m"
    by (simp add: p)
  moreover from small have "\<not> 2 ^ 128 \<le> \<bar>real_of_int m\<bar>"
    by simp
  ultimately show ?thesis
    using False by (simp add: round32_def Let_def flip: e_def)
qed

lemma round32_not_NaN [simp]: "round32 x \<noteq> NaN"
  by (simp add: round32_def Let_def)

lemma round_half_even_nonneg: "0 \<le> r \<Longrightarrow> 0 \<le> round_half_even r"
  by (simp add: round_half_even_def Let_def)

lemma fnonneg_iff: "fnonneg d \<longleftrightarrow> (\<exists>r. 0 \<le> r \<and> d = Finite r) \<or> d = PInf"
  by (cases d) (simp_all add: fnonneg.simps)

lemma round32_nonneg:
  assumes "0 \<le> x"
  shows "fnonneg (round32 x)"
proof (cases "x = 0")
  case True
  then show ?thesis
    by (simp add: fnonneg_iff)
next
  case False
  with assms have pos: "0 < x"
    by simp
  define y where
    "y = real_of_int (round_half_even (x / pow2 (quantum_exponent \<bar>x\<bar>)))
      * pow2 (quantum_exponent \<bar>x\<bar>)"
  from pos have "0 \<le> x / pow2 (quantum_exponent \<bar>x\<bar>)"
    by (intro divide_nonneg_pos) simp_all
  then have "0 \<le> round_half_even (x / pow2 (quantum_exponent \<bar>x\<bar>))"
    by (rule round_half_even_nonneg)
  then have "0 \<le> y"
    unfolding y_def by (intro mult_nonneg_nonneg) simp_all
  moreover from pos have "round32 x = (if 2 ^ 128 \<le> \<bar>y\<bar> then PInf else Finite y)"
    unfolding y_def round32_def Let_def by (simp only: False if_False if_True)
  ultimately show ?thesis
    by (simp add: fnonneg_iff)
qed


lemma fnonneg_cases:
  assumes "fnonneg d"
  obtains r where "0 \<le> r" and "d = Finite r" | "d = PInf"
  using assms by (auto simp: fnonneg_iff)

lemma fnonneg_PInf [simp]: "fnonneg PInf"
  by (simp add: fnonneg_iff)

lemma fnonneg_fadd:
  assumes "fnonneg a" and "fnonneg b"
  shows "fnonneg (fadd a b)"
proof -
  from assms(1) show ?thesis
  proof (cases rule: fnonneg_cases)
    case a: (1 r)
    from assms(2) show ?thesis
    proof (cases rule: fnonneg_cases)
      case (1 r')
      with a have "0 \<le> r + r'"
        by simp
      then have "fnonneg (round32 (r + r'))"
        by (rule round32_nonneg)
      with a 1 show ?thesis
        by simp
    next
      case 2
      with a show ?thesis
        by simp
    qed
  next
    case a: 2
    from assms(2) show ?thesis
    proof (cases rule: fnonneg_cases)
      case (1 r')
      with a show ?thesis
        by simp
    next
      case 2
      with a show ?thesis
        by simp
    qed
  qed
qed

lemma fnonneg_fmul_self: "d \<noteq> NaN \<Longrightarrow> fnonneg (fmul d d)"
  by (cases d) (simp_all add: round32_nonneg)

lemma fsub_finite_not_NaN: "is_finite a \<Longrightarrow> is_finite b \<Longrightarrow> fsub a b \<noteq> NaN"
  by (cases a; cases b) (simp_all add: fsub_def)

lemma fsub_self: "is_finite a \<Longrightarrow> fsub a a = Finite 0"
  by (cases a) (simp_all add: fsub_def)

lemma fmul_zero: "fmul (Finite 0) (Finite 0) = Finite 0"
  by simp

lemma fadd_zero: "fadd (Finite 0) (Finite 0) = Finite 0"
  by simp

lemma fless_irrefl [simp]: "\<not> fless x x"
  by (cases x) simp_all





lemma kSampleProportion_nearest: "round32 (1 / 1000) = kSampleProportion"
  by (simp add: kSampleProportion_def round32_def quantum_exponent_def scale_down.simps
      scale_up.simps pow2_def round_half_even_def)

subsection \<open>Distance\<close>

lemma compare_loop_cong:
  assumes "drop i lhs = drop i lhs'" and "drop i rhs = drop i rhs'"
  shows "compare_loop lhs rhs i acc = compare_loop lhs' rhs' i acc"
  using assms
proof (induction lhs rhs i acc rule: compare_loop.induct)
  case (1 lhs rhs i acc)
  from "1.prems" have "length (drop i lhs) = length (drop i lhs')"
    and "length (drop i rhs) = length (drop i rhs')"
    by simp_all
  then have len: "i < length lhs \<longleftrightarrow> i < length lhs'" "i < length rhs \<longleftrightarrow> i < length rhs'"
    by auto
  show ?case
  proof (cases "i < length lhs \<and> i < length rhs")
    case False
    with len show ?thesis
      by (auto simp: compare_loop.simps [of lhs rhs i acc] compare_loop.simps [of lhs' rhs' i acc])
  next
    case True
    with len have lt: "i < length lhs" "i < length rhs" "i < length lhs'" "i < length rhs'"
      by auto
    have "hd (drop i lhs) = hd (drop i lhs')" "hd (drop i rhs) = hd (drop i rhs')"
      using "1.prems" by simp_all
    with lt have nth: "lhs ! i = lhs' ! i" "rhs ! i = rhs' ! i"
      by (simp_all add: hd_drop_conv_nth)
    have "tl (drop i lhs) = tl (drop i lhs')" "tl (drop i rhs) = tl (drop i rhs')"
      using "1.prems" by simp_all
    then have dr: "drop (i + 1) lhs = drop (i + 1) lhs'" "drop (i + 1) rhs = drop (i + 1) rhs'"
      by (simp_all add: drop_Suc tl_drop)
    define acc' where
      "acc' = fadd acc (fmul (fsub (lhs ! i) (rhs ! i)) (fsub (lhs ! i) (rhs ! i)))"
    have "compare_loop lhs rhs (i + 1) acc' = compare_loop lhs' rhs' (i + 1) acc'"
      using lt dr unfolding acc'_def by (intro "1.IH") simp_all
    with lt nth show ?thesis
      by (simp add: compare_loop.simps [of lhs rhs i acc] compare_loop.simps [of lhs' rhs' i acc]
          Let_def acc'_def)
  qed
qed

lemma compare_loop_fold:
  assumes "length lhs \<le> length rhs"
  shows "compare_loop lhs rhs i acc =
    Inr (foldl (\<lambda>a k. fadd a (fmul (fsub (lhs ! k) (rhs ! k)) (fsub (lhs ! k) (rhs ! k))))
      acc [i..<length lhs])"
  using assms
proof (induction lhs rhs i acc rule: compare_loop.induct)
  case (1 lhs rhs i acc)
  show ?case
  proof (cases "i < length lhs")
    case False
    then show ?thesis
      by (simp add: compare_loop.simps [of lhs rhs i acc])
  next
    case True
    with "1.prems" have lt: "i < length rhs"
      by simp
    define acc' where
      "acc' = fadd acc (fmul (fsub (lhs ! i) (rhs ! i)) (fsub (lhs ! i) (rhs ! i)))"
    have "compare_loop lhs rhs (i + 1) acc' =
      Inr (foldl (\<lambda>a k. fadd a (fmul (fsub (lhs ! k) (rhs ! k)) (fsub (lhs ! k) (rhs ! k))))
        acc' [i + 1..<length lhs])"
      using True lt "1.prems" unfolding acc'_def by (intro "1.IH") simp_all
    with True lt show ?thesis
      by (simp add: compare_loop.simps [of lhs rhs i acc] upt_conv_Cons Let_def acc'_def)
  qed
qed

lemma compare_loop_error:
  "compare_loop lhs rhs i acc = Inl e \<Longrightarrow> e = OutOfBounds"
proof (induction lhs rhs i acc rule: compare_loop.induct)
  case (1 lhs rhs i acc)
  then show ?case
    by (simp add: compare_loop.simps [of lhs rhs i acc] Let_def split: if_splits)
qed

lemma compare_with_id_error: "compare_with_id lhs rhs = Inl e \<Longrightarrow> e = OutOfBounds"
  unfolding compare_with_id_def by (rule compare_loop_error)

lemma compare_loop_same_finite:
  assumes "drop i lhs = drop i rhs" and "list_all is_finite (drop i lhs)" and "acc = Finite 0"
  shows "compare_loop lhs rhs i acc = Inr (Finite 0)"
  using assms
proof (induction lhs rhs i acc rule: compare_loop.induct)
  case (1 lhs rhs i acc)
  from "1.prems"(1) have "length (drop i lhs) = length (drop i rhs)"
    by simp
  then have len: "i < length lhs \<longleftrightarrow> i < length rhs"
    by auto
  show ?case
  proof (cases "i < length lhs")
    case False
    with "1.prems" show ?thesis
      by (simp add: compare_loop.simps [of lhs rhs i])
  next
    case True
    with len have lt: "i < length rhs"
      by simp
    from True have l: "drop i lhs = lhs ! i # drop (i + 1) lhs"
      by (simp add: Cons_nth_drop_Suc)
    from lt have r: "drop i rhs = rhs ! i # drop (i + 1) rhs"
      by (simp add: Cons_nth_drop_Suc)
    from l r "1.prems"(1) have same: "lhs ! i = rhs ! i" "drop (i + 1) lhs = drop (i + 1) rhs"
      by simp_all
    from l "1.prems"(2) have fin: "is_finite (lhs ! i)"
      and rest: "list_all is_finite (drop (i + 1) lhs)"
      by simp_all
    define acc' where
      "acc' = fadd acc (fmul (fsub (lhs ! i) (rhs ! i)) (fsub (lhs ! i) (rhs ! i)))"
    from fin same "1.prems"(3) have acc': "acc' = Finite 0"
      by (simp add: acc'_def fsub_self fmul_zero fadd_zero)
    have "compare_loop lhs rhs (i + 1) acc' = Inr (Finite 0)"
      using True lt same rest acc' unfolding acc'_def by (intro "1.IH") simp_all
    with True lt show ?thesis
      by (simp add: compare_loop.simps [of lhs rhs i acc] Let_def acc'_def)
  qed
qed

lemma compare_loop_not_NaN:
  assumes "length lhs \<le> length rhs"
    and "list_all is_finite (drop i lhs)" and "list_all is_finite (drop i rhs)"
    and "fnonneg acc"
  shows "\<exists>d. compare_loop lhs rhs i acc = Inr d \<and> fnonneg d"
  using assms
proof (induction lhs rhs i acc rule: compare_loop.induct)
  case (1 lhs rhs i acc)
  show ?case
  proof (cases "i < length lhs")
    case False
    with "1.prems" show ?thesis
      by (simp add: compare_loop.simps [of lhs rhs i acc])
  next
    case True
    with "1.prems" have lt: "i < length rhs"
      by simp
    from True have "drop i lhs = lhs ! i # drop (i + 1) lhs"
      by (simp add: Cons_nth_drop_Suc)
    moreover from lt have "drop i rhs = rhs ! i # drop (i + 1) rhs"
      by (simp add: Cons_nth_drop_Suc)
    ultimately have fin: "is_finite (lhs ! i)" "is_finite (rhs ! i)"
      and rest: "list_all is_finite (drop (i + 1) lhs)" "list_all is_finite (drop (i + 1) rhs)"
      using "1.prems" by simp_all
    define acc' where
      "acc' = fadd acc (fmul (fsub (lhs ! i) (rhs ! i)) (fsub (lhs ! i) (rhs ! i)))"
    from fin have "fsub (lhs ! i) (rhs ! i) \<noteq> NaN"
      by (rule fsub_finite_not_NaN)
    then have "fnonneg (fmul (fsub (lhs ! i) (rhs ! i)) (fsub (lhs ! i) (rhs ! i)))"
      by (rule fnonneg_fmul_self)
    with "1.prems" have "fnonneg acc'"
      unfolding acc'_def by (intro fnonneg_fadd)
    with True lt rest "1.prems"
    have "\<exists>d. compare_loop lhs rhs (i + 1) acc' = Inr d \<and> fnonneg d"
      unfolding acc'_def by (intro "1.IH") simp_all
    with True lt show ?thesis
      by (simp add: compare_loop.simps [of lhs rhs i acc] Let_def acc'_def)
  qed
qed

lemma drop_make_query_vec: "drop 2 (make_query_vec q) = drop 4 q"
  by (simp add: make_query_vec_def)

lemma length_make_query_vec: "length (make_query_vec q) = 2 + (length q - 4)"
  by (simp add: make_query_vec_def)

lemma nth_make_query_vec:
  assumes "2 \<le> k" and "k + 2 < length q"
  shows "make_query_vec q ! k = q ! (k + 2)"
proof -
  from assms obtain m where k: "k = Suc (Suc m)"
    by (metis add_2_eq_Suc le_Suc_ex)
  then have idx: "k + 2 = 4 + m"
    by simp
  with assms have "4 + m < length q"
    by simp
  then have "drop 4 q ! m = q ! (4 + m)"
    by (intro nth_drop) simp
  moreover from k have "make_query_vec q ! k = drop 4 q ! m"
    by (simp add: make_query_vec_def)
  ultimately show ?thesis
    by (simp only: idx)
qed

lemma compare_with_id_rounds:
  "compare_with_id (map Finite [0, 0, 4096, 1]) (make_query_vec (map Finite [0, 0, 0, 0, 0, 0])) =
     Inr (Finite 16777216)"
  by (simp add: compare_with_id_def compare_loop.simps make_query_vec_def fsub_def
      round32_def quantum_exponent_def scale_down.simps scale_up.simps pow2_def
      round_half_even_def)

lemma compare_with_id_order_by_rounding:
  "compare_with_id (map Finite [0, 0, 4096, 1, 1, 1])
     (make_query_vec (map Finite [0, 0, 0, 0, 0, 0, 0, 0])) = Inr (Finite 16777216)"
  "compare_with_id (map Finite [0, 0, 4096, 3 / 2, 0, 0])
     (make_query_vec (map Finite [0, 0, 0, 0, 0, 0, 0, 0])) = Inr (Finite 16777218)"
  by (simp_all add: compare_with_id_def compare_loop.simps make_query_vec_def fsub_def
      round32_def quantum_exponent_def scale_down.simps scale_up.simps pow2_def
      round_half_even_def)

subsection \<open>Strict weak orderings and the sort\<close>






lemma mset_insert_by [simp]: "mset (insert_by cmp x xs) = add_mset x (mset xs)"
  by (induction xs) simp_all

lemma set_insert_by [simp]: "set (insert_by cmp x xs) = insert x (set xs)"
  by (induction xs) auto






subsection \<open>Ranking\<close>

lemma compute_dists_iff:
  "compute_dists nodes query_vec knn = Inr dists \<longleftrightarrow>
     list_all2 (\<lambda>k d. unat k < length nodes \<and> compare_with_id (nodes ! unat k) query_vec = Inr d)
       knn dists"
proof (induction knn arbitrary: dists)
  case Nil
  then show ?case
    by auto
next
  case (Cons k knn)
  show ?case
  proof (cases dists)
    case Nil
    then show ?thesis
      by (auto simp: bindE_eq_Inr_iff)
  next
    case (Cons d ds)
    with Cons.IH [of ds] show ?thesis
      by (auto simp: bindE_eq_Inr_iff vec_at_eq_Inr_iff)
  qed
qed

lemma compute_dists_error: "compute_dists nodes query_vec knn = Inl e \<Longrightarrow> e = OutOfBounds"
proof (induction knn)
  case Nil
  then show ?case
    by simp
next
  case (Cons k knn)
  show ?case
  proof (cases "vec_at nodes (unat k)")
    case (Inl e')
    with Cons.prems show ?thesis
      by (simp add: vec_at_def split: if_splits)
  next
    case node: (Inr node)
    show ?thesis
    proof (cases "compare_with_id node query_vec")
      case (Inl e')
      with Cons.prems node compare_with_id_error [of node query_vec e'] show ?thesis
        by simp
    next
      case d: (Inr d)
      show ?thesis
      proof (cases "compute_dists nodes query_vec knn")
        case (Inl e')
        with Cons.prems node d Cons.IH show ?thesis
          by simp
      next
        case (Inr ds)
        with Cons.prems node d show ?thesis
          by simp
      qed
    qed
  qed
qed

lemma compute_dists_out_of_bounds:
  assumes "k \<in> set knn" and "\<not> unat k < length nodes"
  shows "compute_dists nodes query_vec knn = Inl OutOfBounds"
proof (cases "compute_dists nodes query_vec knn")
  case (Inl e)
  then show ?thesis
    using compute_dists_error [of nodes query_vec knn e] by simp
next
  case (Inr dists)
  then have "list_all2 (\<lambda>k d. unat k < length nodes
      \<and> compare_with_id (nodes ! unat k) query_vec = Inr d) knn dists"
    by (simp add: compute_dists_iff)
  with assms(1) have "unat k < length nodes"
    by (auto simp: list_all2_conv_all_nth in_set_conv_nth)
  with assms(2) show ?thesis
    by simp
qed











lemma process_query_small_dataset:
  assumes "length nodes < K_NEAREST"
  shows "\<exists>e. process_query srt nodes (word_of_nat (length nodes)) 0 query = Inl e"
proof (cases "query_candidates nodes 0 query")
  case (Inl e)
  then show ?thesis
    by (simp add: process_query_def)
next
  case (Inr cand)
  then have "cand = []"
    by (rule query_candidates_no_sample)
  define n_points :: uint32 where "n_points = word_of_nat (length nodes)"
  have "length ([] :: uint32 list) < K_NEAREST"
    by (simp add: K_NEAREST_def)
  then have "pad n_points [] = [] @ map (\<lambda>s. n_points - word_of_nat s)
      [1..<K_NEAREST + 1 - length ([] :: uint32 list)]"
    by (rule pad_eq)
  moreover have "length nodes + 1 \<in> set [1..<K_NEAREST + 1 - length ([] :: uint32 list)]"
    using assms by auto
  ultimately have "n_points - word_of_nat (length nodes + 1) \<in> set (pad n_points [])"
    by (simp only: append_Nil set_map) (rule imageI)
  then have mem: "(- 1 :: uint32) \<in> set (pad n_points [])"
    by (simp add: n_points_def)
  have "\<not> unat (- 1 :: uint32) < length nodes"
    using assms by (simp add: K_NEAREST_def unat_wrapped_id)
  with mem have "compute_dists nodes (make_query_vec query) (pad n_points []) = Inl OutOfBounds"
    by (rule compute_dists_out_of_bounds)
  with Inr \<open>cand = []\<close> show ?thesis
    by (simp add: process_query_def rank_candidates_def n_points_def)
qed

subsection \<open>Reading and writing\<close>

lemma length_uint32_bytes [simp]: "length (uint32_bytes w) = 4"
  by (simp add: uint32_bytes_def)

lemma length_concat_uint32_bytes: "length (concat (map uint32_bytes ws)) = 4 * length ws"
  by (induction ws) simp_all

lemma unat_uint32_bytes:
  "map unat (uint32_bytes w) =
     [unat w mod 256, unat w div 256 mod 256, unat w div 65536 mod 256, unat w div 16777216]"
proof -
  have "unat w < 2 ^ LENGTH(32)"
    by (rule unsigned_less)
  then have "unat w div 16777216 < 256"
    by simp
  then have "unat w div 16777216 mod 256 = unat w div 16777216"
    by simp
  then show ?thesis
    by (simp add: uint32_bytes_def unsigned_ucast_eq unat_drop_bit_eq take_bit_eq_mod
        drop_bit_eq_div unat_div_distrib)
qed

lemma write_rows_long_rows:
  assumes "\<forall>knn \<in> set knns. K \<le> length knn"
  shows "write_rows knns out =
    Inr (out @ concat (map (\<lambda>knn. concat (map uint32_bytes (take K knn))) knns))"
  using assms by (induction knns arbitrary: out) simp_all

lemma write_rows_never_asserts: "write_rows knns out \<noteq> Inl AssertionFailed"
  by (induction knns arbitrary: out) simp_all

lemma length_written_rows:
  assumes "\<forall>knn \<in> set knns. K \<le> length knn"
  shows "length (concat (map (\<lambda>knn. concat (map uint32_bytes (take K knn))) knns)) =
    4 * K * length knns"
  using assms by (induction knns) (simp_all add: length_concat_uint32_bytes)

lemma drop_concat_blocks:
  assumes "\<forall>x \<in> set xs. length (f x) = n"
  shows "drop (n * r) (concat (map f xs)) = concat (map f (drop r xs))"
  using assms
proof (induction xs arbitrary: r)
  case Nil
  then show ?case
    by simp
next
  case (Cons x xs)
  show ?case
  proof (cases r)
    case 0
    then show ?thesis
      by simp
  next
    case (Suc r')
    with Cons show ?thesis
      by simp
  qed
qed

lemma take_drop_written_rows:
  assumes "r < length knns" and "i < K" and "\<forall>knn \<in> set knns. K \<le> length knn"
  shows "take 4 (drop (4 * K * r + 4 * i)
      (concat (map (\<lambda>knn. concat (map uint32_bytes (take K knn))) knns))) =
    uint32_bytes (knns ! r ! i)"
proof -
  define row where "row = (\<lambda>knn. concat (map uint32_bytes (take K knn)))"
  from assms(3) have blocks: "\<forall>knn \<in> set knns. length (row knn) = 4 * K"
    by (simp add: row_def length_concat_uint32_bytes)
  from assms(1) have r: "drop r knns = knns ! r # drop (Suc r) knns"
    by (simp add: Cons_nth_drop_Suc)
  from assms(1,3) have len: "K \<le> length (knns ! r)"
    by simp
  with assms(2) have "i < length (take K (knns ! r))"
    by simp
  from Cons_nth_drop_Suc [OF this] assms(2)
  have i: "drop i (take K (knns ! r)) = knns ! r ! i # drop (Suc i) (take K (knns ! r))"
    by simp
  have "drop (4 * K * r + 4 * i) (concat (map row knns)) =
      drop (4 * i) (drop (4 * K * r) (concat (map row knns)))"
    by (simp only: drop_drop add.commute)
  also have "drop (4 * K * r) (concat (map row knns)) = concat (map row (drop r knns))"
    using blocks by (rule drop_concat_blocks)
  also have "\<dots> = row (knns ! r) @ concat (map row (drop (Suc r) knns))"
    by (simp only: r list.map concat.simps)
  also have "drop (4 * i) \<dots> = drop (4 * i) (row (knns ! r)) @ concat (map row (drop (Suc r) knns))"
    using assms(2) len blocks assms(1) by simp
  also have "drop (4 * i) (row (knns ! r)) = concat (map uint32_bytes (drop i (take K (knns ! r))))"
    unfolding row_def by (rule drop_concat_blocks) simp
  also have "\<dots> = uint32_bytes (knns ! r ! i) @ concat (map uint32_bytes (drop (Suc i) (take K (knns ! r))))"
    by (simp only: i list.map concat.simps)
  finally have "take 4 (drop (4 * K * r + 4 * i) (concat (map row knns))) = uint32_bytes (knns ! r ! i)"
    by simp
  then show ?thesis
    by (simp only: row_def)
qed

lemma resize_empty: "resize n [] = replicate n []"
  by (simp add: resize_def)

lemma read_rows_fits:
  assumes "0 < num_dimensions"
    and "counter + length rest div (4 * num_dimensions) \<le> length data"
  shows "read_rows dec num_dimensions rest counter data =
    Inr (take counter data
      @ map (\<lambda>k. decode_row dec num_dimensions (drop (4 * num_dimensions * k) rest))
          [0..<length rest div (4 * num_dimensions)]
      @ drop (counter + length rest div (4 * num_dimensions)) data)"
  using assms
proof (induction dec num_dimensions rest counter data rule: read_rows.induct)
  case (1 dec num_dimensions rest counter data)
  let ?w = "4 * num_dimensions"
  let ?r = "length rest div ?w"
  from "1.prems" have w: "0 < ?w"
    by simp
  show ?case
  proof (cases "?w \<le> length rest")
    case False
    then have "?r = 0"
      by simp
    with False show ?thesis
      by (simp add: read_rows.simps [of dec num_dimensions rest counter data])
  next
    case True
    let ?rest = "drop ?w rest"
    let ?data = "data[counter := decode_row dec num_dimensions rest]"
    from True w have r: "?r = Suc (length ?rest div ?w)"
      by (simp add: le_div_geq)
    with "1.prems" have lt: "counter < length data"
      by simp
    have "read_rows dec num_dimensions ?rest (counter + 1) ?data =
      Inr (take (counter + 1) ?data
        @ map (\<lambda>k. decode_row dec num_dimensions (drop (?w * k) ?rest))
            [0..<length ?rest div ?w]
        @ drop (counter + 1 + length ?rest div ?w) ?data)"
      using True lt "1.prems" r by (intro "1.IH") simp_all
    moreover have "take (counter + 1) ?data = take counter data @ [decode_row dec num_dimensions rest]"
      using lt by (simp add: take_Suc_conv_app_nth)
    moreover have "drop (counter + 1 + length ?rest div ?w) ?data = drop (counter + ?r) data"
      using r by simp
    moreover have "map (\<lambda>k. decode_row dec num_dimensions (drop (?w * k) rest)) [0..<?r] =
      decode_row dec num_dimensions rest
        # map (\<lambda>k. decode_row dec num_dimensions (drop (?w * k) ?rest)) [0..<length ?rest div ?w]"
      unfolding r by (simp add: upt_conv_Cons map_Suc_upt [symmetric] comp_def add.commute
          del: upt_Suc)
    ultimately show ?thesis
      using True lt by (simp add: read_rows.simps [of dec num_dimensions rest counter data])
  qed
qed

lemma read_rows_overrun:
  assumes "0 < num_dimensions"
    and "counter \<le> length data"
    and "length data < counter + length rest div (4 * num_dimensions)"
  shows "read_rows dec num_dimensions rest counter data = Inl OutOfBounds"
  using assms
proof (induction dec num_dimensions rest counter data rule: read_rows.induct)
  case (1 dec num_dimensions rest counter data)
  let ?w = "4 * num_dimensions"
  let ?rest = "drop ?w rest"
  let ?data = "data[counter := decode_row dec num_dimensions rest]"
  from "1.prems" have w: "0 < ?w"
    by simp
  from "1.prems" have "0 < length rest div ?w"
    by simp
  with w have full: "?w \<le> length rest"
    by (simp add: div_greater_zero_iff)
  with w have r: "length rest div ?w = Suc (length ?rest div ?w)"
    by (simp add: le_div_geq)
  show ?case
  proof (cases "counter < length data")
    case False
    with full show ?thesis
      by (simp add: read_rows.simps [of dec num_dimensions rest counter data])
  next
    case True
    have "read_rows dec num_dimensions ?rest (counter + 1) ?data = Inl OutOfBounds"
      using full True "1.prems" r by (intro "1.IH") simp_all
    with full True show ?thesis
      by (simp add: read_rows.simps [of dec num_dimensions rest counter data])
  qed
qed

lemma ReadBin_declared_at_least:
  assumes "0 < num_dimensions"
    and "(length bytes - 4) div (4 * num_dimensions) \<le> unat (le_uint32 (take 4 bytes))"
  shows "ReadBin dec (Some bytes) num_dimensions [] =
    Inr (map (\<lambda>k. decode_row dec num_dimensions (drop (4 + 4 * num_dimensions * k) bytes))
          [0..<(length bytes - 4) div (4 * num_dimensions)]
      @ replicate (unat (le_uint32 (take 4 bytes)) - (length bytes - 4) div (4 * num_dimensions)) [])"
proof (cases "length bytes < 4")
  case True
  then show ?thesis
    by (simp add: ReadBin_def resize_empty)
next
  case False
  let ?N = "unat (le_uint32 (take 4 bytes))"
  let ?r = "(length bytes - 4) div (4 * num_dimensions)"
  have "read_rows dec num_dimensions (drop 4 bytes) 0 (replicate ?N []) =
    Inr (take 0 (replicate ?N [])
      @ map (\<lambda>k. decode_row dec num_dimensions (drop (4 * num_dimensions * k) (drop 4 bytes)))
          [0..<length (drop 4 bytes) div (4 * num_dimensions)]
      @ drop (0 + length (drop 4 bytes) div (4 * num_dimensions)) (replicate ?N []))"
    using assms by (intro read_rows_fits) simp_all
  with False show ?thesis
    by (simp add: ReadBin_def resize_empty add.commute)
qed

lemma ReadBin_declared_too_small:
  assumes "0 < num_dimensions"
    and "unat (le_uint32 (take 4 bytes)) < (length bytes - 4) div (4 * num_dimensions)"
  shows "ReadBin dec (Some bytes) num_dimensions [] = Inl OutOfBounds"
proof -
  from assms have "\<not> length bytes < 4"
    by (cases "length bytes < 4") simp_all
  moreover have "read_rows dec num_dimensions (drop 4 bytes) 0
      (replicate (unat (le_uint32 (take 4 bytes))) []) = Inl OutOfBounds"
    using assms by (intro read_rows_overrun) simp_all
  ultimately show ?thesis
    by (simp add: ReadBin_def resize_empty)
qed

subsection \<open>The run on the dataset of 100 points\<close>

lemma nodes_ex_nth:
  "k < 98 \<Longrightarrow> nodes_ex ! k = [Finite 0, Finite 0, Finite (real (100 - k))]"
  "nodes_ex ! 98 = [Finite 0, Finite 0, Finite 0]"
  "nodes_ex ! 99 = [Finite 0, Finite 0, Finite 1]"
  by (simp_all add: nodes_ex_def nth_append)

lemma length_nodes_ex: "length nodes_ex = 100"
  by (simp add: nodes_ex_def)

lemma compare_with_id_one_feature:
  assumes "m < 4096"
  shows "compare_with_id [a, b, Finite (real m)] [c, d, Finite 0] = Inr (Finite (real (m * m)))"
proof -
  from assms have "m * m < 4096 * 4096"
    by (intro mult_strict_mono) simp_all
  then have "int (m * m) < 16777216"
    by linarith
  then have "\<bar>int (m * m)\<bar> < 2 ^ 24"
    by simp
  from round32_of_int [OF this] have square: "round32 (real m * real m) = Finite (real m * real m)"
    by simp
  from assms have "\<bar>int m\<bar> < 2 ^ 24"
    by simp
  from round32_of_int [OF this] have "round32 (real m) = Finite (real m)"
    by simp
  then have "fsub (Finite (real m)) (Finite 0) = Finite (real m)"
    by (simp add: fsub_def)
  then show ?thesis
    by (simp add: compare_with_id_def compare_loop.simps square)
qed

lemma compare_with_id_numeral:
  assumes "(numeral k :: nat) < 4096"
  shows "compare_with_id [a, b, Finite (numeral k)] [c, d, Finite 0] =
    Inr (Finite (numeral (k * k)))"
  using compare_with_id_one_feature [OF assms, of a b c d] by simp

lemma compare_with_id_zero_one:
  "compare_with_id [a, b, Finite 0] [c, d, Finite 0] = Inr (Finite 0)"
  "compare_with_id [a, b, Finite 1] [c, d, Finite 0] = Inr (Finite 1)"
  using compare_with_id_one_feature [of 0 a b c d] compare_with_id_one_feature [of 1 a b c d]
  by simp_all

lemma ex_pad: "pad 100 [] = padding_ex"
  by (simp add: pad_def K_NEAREST_def pad_loop.simps padding_ex_def)

lemma ex_dists:
  "compute_dists nodes_ex (make_query_vec query_ex) padding_ex = Inr dists_ex"
  unfolding compute_dists_iff padding_ex_def dists_ex_def
  by (simp add: nodes_ex_nth length_nodes_ex make_query_vec_def query_ex_def
      compare_with_id_numeral compare_with_id_zero_one)

lemma ex_sortable: "sortable dists_ex"
  by (simp add: sortable_def dists_ex_def)

lemma ex_sort_gather:
  "gather padding_ex
     (insertion_sort (\<lambda>lhs rhs. fless (dists_ex ! unat lhs) (dists_ex ! unat rhs))
       (map word_of_nat [0..<100])) [0..<100] =
   Inr row_ex"
  by (simp add: upt_rec insertion_sort_def vec_at_def padding_ex_def dists_ex_def row_ex_def)

lemma ex_candidates: "query_candidates nodes_ex 0 query_ex = Inr []"
  by (simp add: query_candidates_def query_ex_def vec_at_def truncate_toward_zero_def
      candidates_def scan_zero)

lemma ex_process_query:
  "process_query insertion_sort nodes_ex 100 0 query_ex = Inr row_ex"
proof -
  have len: "length padding_ex = 100"
    by (simp add: padding_ex_def)
  have "rank_candidates insertion_sort nodes_ex (make_query_vec query_ex) padding_ex =
      Inr row_ex"
    by (simp only: rank_candidates_def ex_dists bindE_Inr Let_def len K_NEAREST_def
        ex_sort_gather ex_sortable if_True)
  then show ?thesis
    by (simp only: process_query_def ex_candidates bindE_Inr ex_pad)
qed

lemma ex_evaluate:
  "evaluate insertion_sort nodes_ex [query_ex] = Inr [row_ex]"
proof -
  have "vec_at nodes_ex 0 = Inr (nodes_ex ! 0)"
    by (simp add: vec_at_def length_nodes_ex)
  moreover have "(word_of_nat (length nodes_ex) :: uint32) = 100"
    by (simp add: length_nodes_ex)
  ultimately show ?thesis
    by (simp add: evaluate_def sample_size_kSampleProportion ex_process_query)
qed


section \<open>The claims\<close>

subsection \<open>C1: the sampled prefix\<close>

text \<open>
  Claim C1: for a dataset of \<open>N\<close> points every query scans exactly the first
  \<open>floor(N \<times> sampleProportion)\<close> indices, so that a kind-0 query has the candidates
  \<open>0, \<dots>, floor(N \<times> sampleProportion) - 1\<close> before padding.

  The source does not do this.  It computes
  \<^verbatim>\<open>n_points * static_cast<uint32_t>(sample_proportion)\<close>: the proportion is truncated to 0
  before the multiplication, and the sample size is 0 for every dataset.  For 2000 points
  the claim asks for a prefix of 2 points, with the proportion read as \<open>0.001\<close>, as the
  number that the \<^verbatim>\<open>float\<close> constant of the source denotes, or with the product taken in
  \<^verbatim>\<open>float\<close> and truncated afterwards; the source scans no point and a kind-0 query has
  no candidate before padding.
\<close>

theorem C1_sample_prefix_empty:
  "sample_size (word_of_nat 2000) kSampleProportion = Inr 0
   \<and> spec_sample_size 2000 = 2
   \<and> kSampleProportion = Finite (8589935 / 2 ^ 33)
   \<and> nat \<lfloor>2000 * (8589935 / 2 ^ 33 :: real)\<rfloor> = 2
   \<and> float_to_uint32 (fmul (Finite 2000) kSampleProportion) = Inr 2
   \<and> bindE (sample_size (word_of_nat (length (replicate 2000 (replicate 102 (Finite 0)))))
         kSampleProportion)
       (\<lambda>sample_prop. query_candidates (replicate 2000 (replicate 102 (Finite 0))) sample_prop
          (replicate 104 (Finite 0)))
     = Inr []"
proof -
  have "spec_sample_size 2000 = 2"
    by (simp add: spec_sample_size_def)
  moreover have "nat \<lfloor>2000 * (8589935 / 2 ^ 33 :: real)\<rfloor> = 2"
    by simp
  moreover have "fmul (Finite 2000) kSampleProportion = Finite 2"
    by (simp add: kSampleProportion_def round32_def quantum_exponent_def scale_down.simps
        scale_up.simps pow2_def round_half_even_def)
  then have "float_to_uint32 (fmul (Finite 2000) kSampleProportion) = Inr 2"
    by (simp add: truncate_toward_zero_def)
  moreover have "query_candidates (replicate 2000 (replicate 102 (Finite 0))) 0
      (replicate 104 (Finite 0)) = Inr []"
    by (simp add: query_candidates_def vec_at_def truncate_toward_zero_def candidates_def
        scan_zero)
  moreover have "kSampleProportion = Finite (8589935 / 2 ^ 33)"
    by (simp add: kSampleProportion_def)
  ultimately show ?thesis
    by (simp only: sample_size_kSampleProportion bindE_Inr simp_thms)
qed

subsection \<open>C3: more rows than declared\<close>

text \<open>
  Claim C3: \<^verbatim>\<open>ReadBin\<close> stores at most the declared number of rows, also when the file
  holds more complete rows, and drops a trailing partial row.

  The loop of the source stops at the end of the file only; it never compares
  \<^verbatim>\<open>counter\<close> with the declared count.  A file that declares one row and holds two
  complete rows (one dimension, so four bytes a row) makes it assign \<^verbatim>\<open>data[1]\<close> in a
  vector of size 1, outside its bounds.  \<open>ReadBin_declared_too_small\<close> shows the same for
  every file with more complete rows than declared.  That a trailing partial row is
  dropped does hold (\<open>ReadBin_declared_at_least\<close>).
\<close>

theorem C3_more_rows_than_declared:
  "ReadBin dec (Some [1, 0, 0, 0, 1, 2, 3, 4, 5, 6, 7, 8]) 1 [] = Inl OutOfBounds
   \<and> unat (le_uint32 (take 4 [1, 0, 0, 0, 1, 2, 3, 4, 5, 6, 7, 8])) = 1
   \<and> (length [1, 0, 0, 0, 1, 2, 3, 4, 5, 6, 7, 8 :: byte] - 4) div (4 * 1) = 2"
  by (simp add: ReadBin_def le_uint32_def resize_def read_rows.simps)

subsection \<open>C4: the result row\<close>



subsection \<open>C5: padding\<close>

text \<open>
  Claim C5: a candidate list with fewer than 100 entries is extended by
  \<open>N - 1, N - 2, \<dots>\<close> until it has exactly 100 entries.  The appended IDs are computed in
  \<^verbatim>\<open>uint32_t\<close> from \<open>N\<close> and from the number of candidates only: they are neither
  compared with the candidates already there nor tested against the predicate of the
  query.  Where the dataset has at least as many points as IDs are appended, they are
  the numbers \<open>N - 1, N - 2, \<dots>\<close> themselves, in descending order.  The extended list
  is what the query ranks.
\<close>

theorem C5_padding:
  assumes "length cand < K_NEAREST"
  shows "pad n_points cand =
      cand @ map (\<lambda>s. n_points - word_of_nat s) [1..<K_NEAREST + 1 - length cand]
    \<and> length (pad n_points cand) = K_NEAREST
    \<and> K_NEAREST = 100
    \<and> (K_NEAREST - length cand \<le> unat n_points \<longrightarrow>
         map unat (drop (length cand) (pad n_points cand)) =
         map (\<lambda>s. unat n_points - s) [1..<K_NEAREST + 1 - length cand])
    \<and> (query_candidates nodes sample_prop query = Inr cand \<longrightarrow>
         process_query srt nodes n_points sample_prop query =
         rank_candidates srt nodes (make_query_vec query)
           (cand @ map (\<lambda>s. n_points - word_of_nat s) [1..<K_NEAREST + 1 - length cand]))"
proof -
  note eq = pad_eq [OF assms, of n_points]
  have len: "length (pad n_points cand) = K_NEAREST"
    using assms by (simp add: length_pad)
  have nat: "map unat (drop (length cand) (pad n_points cand)) =
      map (\<lambda>s. unat n_points - s) [1..<K_NEAREST + 1 - length cand]"
    if "K_NEAREST - length cand \<le> unat n_points"
  proof -
    have "unat (n_points - word_of_nat s) = unat n_points - s"
      if "s \<in> set [1..<K_NEAREST + 1 - length cand]" for s
      using that \<open>K_NEAREST - length cand \<le> unat n_points\<close>
      by (intro unat_sub_of_nat) auto
    then show ?thesis
      by (simp add: eq)
  qed
  have run: "process_query srt nodes n_points sample_prop query =
      rank_candidates srt nodes (make_query_vec query)
        (cand @ map (\<lambda>s. n_points - word_of_nat s) [1..<K_NEAREST + 1 - length cand])"
    if "query_candidates nodes sample_prop query = Inr cand"
    using that by (simp add: process_query_def eq)
  from eq len nat run show ?thesis
    by (simp add: K_NEAREST_def)
qed

theorem C5_padding_witness:
  "length ([] :: uint32 list) < K_NEAREST
   \<and> K_NEAREST - length ([] :: uint32 list) \<le> unat (100 :: uint32)
   \<and> query_candidates nodes_ex 0 query_ex = Inr []
   \<and> map unat (pad 100 []) = map (\<lambda>s. 100 - s) [1..<101]
   \<and> process_query insertion_sort nodes_ex 100 0 query_ex =
       rank_candidates insertion_sort nodes_ex (make_query_vec query_ex)
         (map (\<lambda>s. 100 - word_of_nat s) [1..<101])"
proof -
  note cand = ex_candidates
  have small: "length ([] :: uint32 list) < K_NEAREST"
    by (simp add: K_NEAREST_def)
  have enough: "K_NEAREST - length ([] :: uint32 list) \<le> unat (100 :: uint32)"
    by (simp add: K_NEAREST_def)
  note padding = C5_padding [OF small, of 100 nodes_ex 0 query_ex insertion_sort]
  from padding enough
  have "map unat (drop (length ([] :: uint32 list)) (pad 100 [])) =
      map (\<lambda>s. unat (100 :: uint32) - s) [1..<K_NEAREST + 1 - length ([] :: uint32 list)]"
    by blast
  then have ids: "map unat (pad 100 []) = map (\<lambda>s. 100 - s) [1..<101]"
    by (simp add: K_NEAREST_def)
  from padding cand
  have "process_query insertion_sort nodes_ex 100 0 query_ex =
      rank_candidates insertion_sort nodes_ex (make_query_vec query_ex)
        ([] @ map (\<lambda>s. 100 - word_of_nat s) [1..<K_NEAREST + 1 - length ([] :: uint32 list)])"
    by blast
  then have run: "process_query insertion_sort nodes_ex 100 0 query_ex =
      rank_candidates insertion_sort nodes_ex (make_query_vec query_ex)
        (map (\<lambda>s. 100 - word_of_nat s) [1..<101])"
    by (simp add: K_NEAREST_def)
  from small enough cand ids run show ?thesis
    by blast
qed

subsection \<open>C6: the result row of a padded query\<close>




subsection \<open>C7: the distance\<close>

text \<open>
  Claim C7, amended: the distance of a point to a query is computed from the dimensions
  \<open>2, \<dots>, D - 1\<close> only: it is the sum, accumulated in this order from 0, of the squared
  differences to the fields \<open>4, \<dots>, D + 1\<close> of the query, every difference, product and
  sum rounded to \<^verbatim>\<open>float\<close>.  Two points that agree from dimension 2 on have the same
  distance to every query, whatever their dimensions 0 and 1 are, and the distance is 0
  when the feature vector of the query (its fields from 4 on) equals these dimensions
  and they are finite.  The distance of finite features is a number that is not
  negative or, when the sum overflows, \<open>+\<infinity>\<close>; it is never NaN.
\<close>

theorem C7_distance_features_only:
  assumes "drop 2 p1 = drop 2 p2"
  shows "compare_with_id p1 (make_query_vec q) = compare_with_id p2 (make_query_vec q)
    \<and> (drop 4 q = drop 2 p1 \<and> list_all is_finite (drop 2 p1) \<longrightarrow>
         compare_with_id p1 (make_query_vec q) = Inr (Finite 0)
         \<and> compare_with_id p2 (make_query_vec q) = Inr (Finite 0))
    \<and> (length p1 + 2 \<le> length q \<longrightarrow>
         compare_with_id p1 (make_query_vec q) =
         Inr (foldl (\<lambda>acc k. fadd acc (fmul (fsub (p1 ! k) (q ! (k + 2)))
                                            (fsub (p1 ! k) (q ! (k + 2)))))
                (Finite 0) [2..<length p1]))
    \<and> (length p1 + 2 \<le> length q \<and> 4 \<le> length q
         \<and> list_all is_finite (drop 2 p1) \<and> list_all is_finite (drop 4 q) \<longrightarrow>
         (\<exists>d. compare_with_id p1 (make_query_vec q) = Inr d \<and> fnonneg d))"
proof -
  have same: "compare_with_id p1 (make_query_vec q) = compare_with_id p2 (make_query_vec q)"
    unfolding compare_with_id_def using assms by (intro compare_loop_cong) simp_all
  have zero: "compare_with_id p1 (make_query_vec q) = Inr (Finite 0)"
    if "drop 4 q = drop 2 p1" and "list_all is_finite (drop 2 p1)"
  proof -
    from that(1) have "drop 2 p1 = drop 2 (make_query_vec q)"
      by (simp add: drop_make_query_vec)
    from compare_loop_same_finite [OF this that(2) refl] show ?thesis
      by (simp add: compare_with_id_def)
  qed
  have formula: "compare_with_id p1 (make_query_vec q) =
      Inr (foldl (\<lambda>acc k. fadd acc (fmul (fsub (p1 ! k) (q ! (k + 2)))
                                         (fsub (p1 ! k) (q ! (k + 2)))))
             (Finite 0) [2..<length p1])"
    if "length p1 + 2 \<le> length q"
  proof -
    from that have "length p1 \<le> length (make_query_vec q)"
      by (simp add: length_make_query_vec)
    then have "compare_with_id p1 (make_query_vec q) =
        Inr (foldl (\<lambda>acc k. fadd acc (fmul (fsub (p1 ! k) (make_query_vec q ! k))
                                           (fsub (p1 ! k) (make_query_vec q ! k))))
               (Finite 0) [2..<length p1])"
      by (simp add: compare_with_id_def compare_loop_fold)
    also have "foldl (\<lambda>acc k. fadd acc (fmul (fsub (p1 ! k) (make_query_vec q ! k))
                                            (fsub (p1 ! k) (make_query_vec q ! k))))
               (Finite 0) [2..<length p1] =
        foldl (\<lambda>acc k. fadd acc (fmul (fsub (p1 ! k) (q ! (k + 2)))
                                     (fsub (p1 ! k) (q ! (k + 2)))))
               (Finite 0) [2..<length p1]"
      using that by (intro foldl_cong refl) (simp add: nth_make_query_vec)
    finally show ?thesis .
  qed
  have nonneg: "\<exists>d. compare_with_id p1 (make_query_vec q) = Inr d \<and> fnonneg d"
    if "length p1 + 2 \<le> length q" and "4 \<le> length q"
      and "list_all is_finite (drop 2 p1)" and "list_all is_finite (drop 4 q)"
  proof -
    from that(1,2) have "length p1 \<le> length (make_query_vec q)"
      by (simp add: length_make_query_vec)
    moreover from that(4) have "list_all is_finite (drop 2 (make_query_vec q))"
      by (simp only: drop_make_query_vec)
    moreover have "fnonneg (Finite 0)"
      by (simp add: fnonneg_iff)
    ultimately show ?thesis
      unfolding compare_with_id_def using that(3) by (intro compare_loop_not_NaN)
  qed
  from same zero formula nonneg show ?thesis
    by simp
qed

theorem C7_distance_features_only_witness:
  "drop 2 (map Finite [0, 1, 2, 3]) = drop 2 (map Finite [1, 5, 2, 3])
   \<and> drop 4 (map Finite [2, 0, 0, 1, 2, 3]) = drop 2 (map Finite [0, 1, 2, 3])
   \<and> list_all is_finite (drop 2 (map Finite [0, 1, 2, 3]))
   \<and> length (map Finite [0, 1, 2, 3]) + 2 \<le> length (map Finite [2, 0, 0, 1, 2, 3])
   \<and> compare_with_id (map Finite [0, 1, 2, 3]) (make_query_vec (map Finite [2, 0, 0, 1, 2, 3])) =
       Inr (Finite 0)
   \<and> compare_with_id (map Finite [1, 5, 2, 3]) (make_query_vec (map Finite [2, 0, 0, 1, 2, 3])) =
       Inr (Finite 0)"
  using C7_distance_features_only [of "map Finite [0, 1, 2, 3]" "map Finite [1, 5, 2, 3]"
      "map Finite [2, 0, 0, 1, 2, 3]"]
  by simp

text \<open>
  The claim as it was stated has the distance 0 whenever the features of the query equal
  those of the point.  For a feature that is infinite on both sides the difference
  \<open>\<infinity> - \<infinity>\<close> is NaN and so is the distance, for both points.  Rounding is why the
  amended claim does not speak of the squared Euclidean distance itself: the features
  \<open>4096, 1\<close> have the squared length \<open>16777217\<close> and the distance \<open>16777216\<close> to the
  origin (\<open>compare_with_id_rounds\<close>).
\<close>

theorem C7_infinite_feature_counterexample:
  "drop 2 [Finite 0, Finite 1, PInf] = drop 2 [Finite 1, Finite 5, PInf]
   \<and> drop 4 [Finite 2, Finite 0, Finite 0, Finite 1, PInf] = drop 2 [Finite 0, Finite 1, PInf]
   \<and> compare_with_id [Finite 0, Finite 1, PInf]
       (make_query_vec [Finite 2, Finite 0, Finite 0, Finite 1, PInf]) = Inr NaN
   \<and> compare_with_id [Finite 1, Finite 5, PInf]
       (make_query_vec [Finite 2, Finite 0, Finite 0, Finite 1, PInf]) = Inr NaN
   \<and> NaN \<noteq> Finite 0
   \<and> \<not> feq NaN (Finite 0)"
  by (simp add: compare_with_id_def compare_loop.simps make_query_vec_def fsub_def feq_def)

subsection \<open>C8: the writer\<close>

text \<open>
  Claim C8: \<^verbatim>\<open>SaveKNN\<close> writes every result row as 100 consecutive 32-bit unsigned
  integers in the order of the rows, with nothing before, between or after them, and its
  assertion fails if and only if the first row does not have exactly 100 entries; the
  lengths of the other rows are not checked.

  There is a first row when the sequence of rows is not empty.  Of a longer row the
  first 100 entries are written; the bytes of the file are then given for all sequences
  whose later rows have at least 100 entries, which \<^verbatim>\<open>ofs.write\<close> needs to stay inside
  the row.  The file has 400 bytes for every row, and the four bytes at the offset
  \<open>400 r + 4 i\<close> are the entry \<open>i\<close> of the row \<open>r\<close>, least significant byte first: the
  remainders modulo 256 of the ID, of the ID divided by \<open>2^8\<close>, by \<open>2^16\<close> and by
  \<open>2^24\<close>.
\<close>

theorem C8_SaveKNN:
  assumes "knns \<noteq> []"
  shows "(SaveKNN knns = Inl AssertionFailed \<longleftrightarrow> length (hd knns) \<noteq> 100)
    \<and> (length (hd knns) = 100 \<and> (\<forall>knn \<in> set (tl knns). 100 \<le> length knn) \<longrightarrow>
         (\<exists>out. SaveKNN knns = Inr out
           \<and> length out = 400 * length knns
           \<and> (\<forall>r < length knns. \<forall>i < 100.
                map unat (take 4 (drop (400 * r + 4 * i) out)) =
                  [unat (knns ! r ! i) mod 256,
                   unat (knns ! r ! i) div 256 mod 256,
                   unat (knns ! r ! i) div 65536 mod 256,
                   unat (knns ! r ! i) div 16777216])))"
proof -
  have fails: "SaveKNN knns = Inl AssertionFailed \<longleftrightarrow> length (hd knns) \<noteq> 100"
    using assms by (simp add: SaveKNN_def K_def write_rows_never_asserts)
  have writes: "\<exists>out. SaveKNN knns = Inr out
      \<and> length out = 400 * length knns
      \<and> (\<forall>r < length knns. \<forall>i < 100.
           map unat (take 4 (drop (400 * r + 4 * i) out)) =
             [unat (knns ! r ! i) mod 256,
              unat (knns ! r ! i) div 256 mod 256,
              unat (knns ! r ! i) div 65536 mod 256,
              unat (knns ! r ! i) div 16777216])"
    if first: "length (hd knns) = 100" and rest: "\<forall>knn \<in> set (tl knns). 100 \<le> length knn"
  proof -
    let ?out = "concat (map (\<lambda>knn. concat (map uint32_bytes (take K knn))) knns)"
    from assms obtain knn rest' where knns: "knns = knn # rest'"
      by (cases knns) auto
    with first rest have all: "\<forall>knn \<in> set knns. K \<le> length knn"
      by (simp add: K_def)
    from write_rows_long_rows [OF all, of "[]"] assms first
    have out: "SaveKNN knns = Inr ?out"
      by (simp add: SaveKNN_def K_def)
    from length_written_rows [OF all] have len: "length ?out = 400 * length knns"
      by (simp add: K_def)
    have bytes: "map unat (take 4 (drop (400 * r + 4 * i) ?out)) =
        [unat (knns ! r ! i) mod 256,
         unat (knns ! r ! i) div 256 mod 256,
         unat (knns ! r ! i) div 65536 mod 256,
         unat (knns ! r ! i) div 16777216]"
      if "r < length knns" "i < 100" for r i
    proof -
      from that have "take 4 (drop (4 * K * r + 4 * i) ?out) = uint32_bytes (knns ! r ! i)"
        using all by (intro take_drop_written_rows) (simp_all add: K_def)
      moreover have "4 * K * r + 4 * i = 400 * r + 4 * i"
        by (simp add: K_def)
      ultimately show ?thesis
        by (simp only: unat_uint32_bytes)
    qed
    from out len bytes show ?thesis
      by blast
  qed
  from fails writes show ?thesis
    by blast
qed

theorem C8_SaveKNN_witness:
  "[1999 # 16909060 # replicate 98 7, replicate 101 (9 :: uint32)] \<noteq> []
   \<and> length (hd [1999 # 16909060 # replicate 98 7, replicate 101 (9 :: uint32)]) = 100
   \<and> 100 \<le> length (replicate 101 (9 :: uint32))
   \<and> SaveKNN [1999 # 16909060 # replicate 98 7, replicate 101 9] =
       Inr ([207, 7, 0, 0, 4, 3, 2, 1] @ concat (replicate 98 [7, 0, 0, 0])
         @ concat (replicate 100 [9, 0, 0, 0]))
   \<and> SaveKNN [replicate 101 7, replicate 100 9] = Inl AssertionFailed"
proof -
  define row1 :: "uint32 list" where "row1 = 1999 # 16909060 # replicate 98 7"
  define row2 :: "uint32 list" where "row2 = replicate 101 9"
  have ne: "[row1, row2] \<noteq> []"
    and ne': "[replicate 101 7, replicate 100 (9 :: uint32)] \<noteq> []"
    by simp_all
  have len1: "length row1 = 100" and len2: "length row2 = 101"
    by (simp_all add: row1_def row2_def)
  have take1: "take K row1 = row1"
    by (rule take_all) (simp add: len1 K_def)
  have take2: "take K row2 = replicate 100 9"
    by (simp add: row2_def K_def)
  have bytes: "uint32_bytes 7 = [7, 0, 0, 0]" "uint32_bytes 9 = [9, 0, 0, 0]"
    "uint32_bytes 1999 = [207, 7, 0, 0]" "uint32_bytes 16909060 = [4, 3, 2, 1]"
    by (simp_all add: uint32_bytes_def)
  have "\<forall>knn \<in> set [row1, row2]. K \<le> length knn"
    by (simp add: len1 len2 K_def)
  from write_rows_long_rows [OF this, of "[]"]
  have "SaveKNN [row1, row2] =
      Inr (concat (map uint32_bytes (take K row1)) @ concat (map uint32_bytes (take K row2)))"
    by (simp add: SaveKNN_def len1 K_def)
  also have "concat (map uint32_bytes (take K row1)) =
      [207, 7, 0, 0, 4, 3, 2, 1] @ concat (replicate 98 [7, 0, 0, 0])"
    unfolding take1 by (simp add: row1_def bytes)
  also have "concat (map uint32_bytes (take K row2)) = concat (replicate 100 [9, 0, 0, 0])"
    unfolding take2 by (simp add: bytes)
  finally have written: "SaveKNN [row1, row2] =
      Inr ([207, 7, 0, 0, 4, 3, 2, 1] @ concat (replicate 98 [7, 0, 0, 0])
        @ concat (replicate 100 [9, 0, 0, 0]))"
    by simp
  have "length (hd [replicate 101 7, replicate 100 (9 :: uint32)]) \<noteq> 100"
    by simp
  with C8_SaveKNN [OF ne']
  have "SaveKNN [replicate 101 7, replicate 100 9] = Inl AssertionFailed"
    by blast
  with written len1 len2 show ?thesis
    unfolding row1_def row2_def by simp
qed

subsection \<open>C9: fewer than 100 points\<close>

text \<open>
  Claim C9: on a dataset of fewer than 100 points the padding of a query runs past
  \<open>N\<close>: \<^verbatim>\<open>n_points - sampled\<close> wraps around modulo \<open>2^32\<close> and gives an ID outside
  \<open>0, \<dots>, N - 1\<close>, with which the distance computation indexes the dataset.  So
  \<open>N \<ge> 100\<close> is necessary for the accesses of the evaluator to stay in bounds.

  With the sample size that \<^verbatim>\<open>main\<close> computes, a query on fewer than 100 points has no
  candidate, the padding is \<open>N - 1, \<dots>, N - 100\<close> in \<^verbatim>\<open>uint32_t\<close>, the ID
  \<open>N - (N + 1)\<close> among them is \<open>2^32 - 1\<close>, which is no index of the dataset, and the
  query ends in an access out of bounds.  Every run of the evaluator over at least one
  query that ends without such an access has at least 100 points.
\<close>

theorem C9_fewer_than_100_points:
  "(length nodes < K_NEAREST
      \<and> sample_size (word_of_nat (length nodes)) kSampleProportion = Inr sample_prop
      \<and> query_candidates nodes sample_prop query = Inr cand \<longrightarrow>
      pad (word_of_nat (length nodes)) cand =
        map (\<lambda>s. word_of_nat (length nodes) - word_of_nat s) [1..<K_NEAREST + 1]
      \<and> (word_of_nat (length nodes) - word_of_nat (length nodes + 1) :: uint32)
          \<in> set (pad (word_of_nat (length nodes)) cand)
      \<and> unat (word_of_nat (length nodes) - word_of_nat (length nodes + 1) :: uint32) = 2 ^ 32 - 1
      \<and> \<not> unat (word_of_nat (length nodes) - word_of_nat (length nodes + 1) :: uint32)
            < length nodes
      \<and> process_query srt nodes (word_of_nat (length nodes)) sample_prop query = Inl OutOfBounds)
   \<and> (evaluate srt nodes (query # queries) = Inr knn_results \<longrightarrow> K_NEAREST \<le> length nodes)"
proof (intro conjI impI)
  assume *: "length nodes < K_NEAREST
    \<and> sample_size (word_of_nat (length nodes)) kSampleProportion = Inr sample_prop
    \<and> query_candidates nodes sample_prop query = Inr cand"
  define n_points :: uint32 where "n_points = word_of_nat (length nodes)"
  from * have small: "length nodes < K_NEAREST" and sp: "sample_prop = 0"
    by (auto dest: sample_size_main)
  with * have cand: "cand = []"
    by (auto dest: query_candidates_no_sample)
  have "length ([] :: uint32 list) < K_NEAREST"
    by (simp add: K_NEAREST_def)
  then have "pad n_points [] = [] @ map (\<lambda>s. n_points - word_of_nat s)
      [1..<K_NEAREST + 1 - length ([] :: uint32 list)]"
    by (rule pad_eq)
  then have pad: "pad n_points cand = map (\<lambda>s. n_points - word_of_nat s) [1..<K_NEAREST + 1]"
    by (simp add: cand)
  have "length nodes + 1 \<in> set [1..<K_NEAREST + 1]"
    using small by auto
  then have mem: "n_points - word_of_nat (length nodes + 1) \<in> set (pad n_points cand)"
    by (simp only: pad set_map) (rule imageI)
  have wrap: "n_points - word_of_nat (length nodes + 1) = - 1"
    by (simp add: n_points_def)
  have val: "unat (n_points - word_of_nat (length nodes + 1)) = 2 ^ 32 - 1"
    by (simp only: wrap unat_wrapped_id)
  with small have out: "\<not> unat (n_points - word_of_nat (length nodes + 1)) < length nodes"
    by (simp add: K_NEAREST_def)
  from mem out
  have "compute_dists nodes (make_query_vec query) (pad n_points cand) = Inl OutOfBounds"
    by (rule compute_dists_out_of_bounds)
  with * have run: "process_query srt nodes n_points sample_prop query = Inl OutOfBounds"
    by (simp add: process_query_def rank_candidates_def)
  from pad show "pad (word_of_nat (length nodes)) cand =
      map (\<lambda>s. word_of_nat (length nodes) - word_of_nat s) [1..<K_NEAREST + 1]"
    unfolding n_points_def .
  from mem show "(word_of_nat (length nodes) - word_of_nat (length nodes + 1) :: uint32)
      \<in> set (pad (word_of_nat (length nodes)) cand)"
    unfolding n_points_def .
  from val
  show "unat (word_of_nat (length nodes) - word_of_nat (length nodes + 1) :: uint32) = 2 ^ 32 - 1"
    unfolding n_points_def .
  from out
  show "\<not> unat (word_of_nat (length nodes) - word_of_nat (length nodes + 1) :: uint32)
      < length nodes"
    unfolding n_points_def .
  from run
  show "process_query srt nodes (word_of_nat (length nodes)) sample_prop query = Inl OutOfBounds"
    unfolding n_points_def .
next
  assume run: "evaluate srt nodes (query # queries) = Inr knn_results"
  show "K_NEAREST \<le> length nodes"
  proof (rule ccontr)
    assume "\<not> K_NEAREST \<le> length nodes"
    then have "length nodes < K_NEAREST"
      by simp
    then obtain e where
      "process_query srt nodes (word_of_nat (length nodes)) 0 query = Inl e"
      using process_query_small_dataset by blast
    then have "evaluate srt nodes (query # queries) \<noteq> Inr knn_results"
      by (cases "vec_at nodes 0") (simp_all add: evaluate_def sample_size_kSampleProportion)
    with run show False
      by simp
  qed
qed

theorem C9_fewer_than_100_points_witness:
  "length [[Finite 0, Finite 0, Finite 1]] < K_NEAREST
   \<and> sample_size (word_of_nat (length [[Finite 0, Finite 0, Finite 1]])) kSampleProportion =
       Inr 0
   \<and> query_candidates [[Finite 0, Finite 0, Finite 1]] 0 query_ex = Inr []
   \<and> process_query insertion_sort [[Finite 0, Finite 0, Finite 1]]
         (word_of_nat (length [[Finite 0, Finite 0, Finite 1]])) 0 query_ex = Inl OutOfBounds
   \<and> evaluate insertion_sort nodes_ex [query_ex] = Inr [row_ex]
   \<and> K_NEAREST \<le> length nodes_ex"
proof -
  define nodes where "nodes = [[Finite 0, Finite 0, Finite 1]]"
  have small: "length nodes < K_NEAREST"
    by (simp add: nodes_def K_NEAREST_def)
  have sp: "sample_size (word_of_nat (length nodes)) kSampleProportion = Inr 0"
    by (rule sample_size_kSampleProportion)
  have cand: "query_candidates nodes 0 query_ex = Inr []"
    by (simp add: query_candidates_def query_ex_def vec_at_def truncate_toward_zero_def
        candidates_def scan_zero)
  from C9_fewer_than_100_points [where nodes = nodes and sample_prop = 0
      and query = query_ex and cand = "[]" and srt = insertion_sort] small sp cand
  have fails: "process_query insertion_sort nodes (word_of_nat (length nodes)) 0 query_ex =
      Inl OutOfBounds"
    by blast
  from C9_fewer_than_100_points [where nodes = nodes_ex and srt = insertion_sort
      and query = query_ex and queries = "[]"] ex_evaluate
  have "K_NEAREST \<le> length nodes_ex"
    by blast
  with small sp cand fails ex_evaluate show ?thesis
    unfolding nodes_def by blast
qed

subsection \<open>C10: fewer rows than declared\<close>

text \<open>
  Claim C10: when the declared row count exceeds the number of complete rows of the
  file, \<^verbatim>\<open>ReadBin\<close> (called on an empty vector, as \<^verbatim>\<open>main\<close> does) still returns exactly
  the declared number of rows: the complete rows of the file, each with
  \<open>num_dimensions\<close> entries, followed by empty rows.
\<close>

theorem C10_short_file_keeps_empty_rows:
  assumes "0 < num_dimensions"
    and "(length bytes - 4) div (4 * num_dimensions) < unat (le_uint32 (take 4 bytes))"
  shows "\<exists>data. ReadBin dec (Some bytes) num_dimensions [] = Inr data
    \<and> length data = unat (le_uint32 (take 4 bytes))
    \<and> (\<forall>k. (length bytes - 4) div (4 * num_dimensions) \<le> k \<and> k < length data \<longrightarrow>
          data ! k = [])
    \<and> (\<forall>k < (length bytes - 4) div (4 * num_dimensions).
          data ! k = decode_row dec num_dimensions (drop (4 + 4 * num_dimensions * k) bytes)
          \<and> length (data ! k) = num_dimensions)"
proof -
  let ?N = "unat (le_uint32 (take 4 bytes))"
  let ?r = "(length bytes - 4) div (4 * num_dimensions)"
  let ?rows = "map (\<lambda>k. decode_row dec num_dimensions (drop (4 + 4 * num_dimensions * k) bytes))
    [0..<?r]"
  let ?data = "?rows @ replicate (?N - ?r) []"
  from assms have read: "ReadBin dec (Some bytes) num_dimensions [] = Inr ?data"
    by (intro ReadBin_declared_at_least) simp_all
  from assms have len: "length ?data = ?N"
    by simp
  have empty: "?data ! k = []" if "?r \<le> k" "k < length ?data" for k
    using that assms by (simp add: nth_append)
  have full: "?data ! k = decode_row dec num_dimensions (drop (4 + 4 * num_dimensions * k) bytes)
      \<and> length (?data ! k) = num_dimensions" if "k < ?r" for k
    using that by (simp add: nth_append decode_row_def)
  from read len empty full show ?thesis
    by blast
qed

theorem C10_short_file_keeps_empty_rows_witness:
  "(0 :: nat) < 1
   \<and> (length [3, 0, 0, 0, 1, 2, 3, 4, 5, 6 :: byte] - 4) div (4 * 1)
       < unat (le_uint32 (take 4 [3, 0, 0, 0, 1, 2, 3, 4, 5, 6]))
   \<and> ReadBin le_uint32 (Some [3, 0, 0, 0, 1, 2, 3, 4, 5, 6]) 1 [] = Inr [[67305985], [], []]"
proof -
  have dims: "(0 :: nat) < 1"
    by simp
  have short: "(length [3, 0, 0, 0, 1, 2, 3, 4, 5, 6 :: byte] - 4) div (4 * 1)
      < unat (le_uint32 (take 4 [3, 0, 0, 0, 1, 2, 3, 4, 5, 6]))"
    by (simp add: le_uint32_def)
  from C10_short_file_keeps_empty_rows [OF dims short, of le_uint32]
  obtain data where "ReadBin le_uint32 (Some [3, 0, 0, 0, 1, 2, 3, 4, 5, 6]) 1 [] = Inr data"
    by blast
  moreover have "le_uint32 [3, 0, 0, 0] = 3" and "le_uint32 [1, 2, 3, 4] = 67305985"
    by (simp_all add: le_uint32_def)
  moreover have "replicate 3 [] = [[], [], [] :: uint32 list]"
    by (simp add: numeral_3_eq_3)
  ultimately have "ReadBin le_uint32 (Some [3, 0, 0, 0, 1, 2, 3, 4, 5, 6]) 1 [] =
      Inr [[67305985], [], []]"
    by (simp add: ReadBin_def resize_def read_rows.simps decode_row_def)
  then show ?thesis
    using dims short by simp
qed

end
